theory Spec2Isabelle
  imports Complex_Main "HOL-Library.Multiset" "HOL-Library.AList"
begin

section \<open>Numbers and randomness\<close>

text \<open>
  Amounts of money are Python floats in \<^verbatim>\<open>app.py\<close>. Every finite float is a rational
  number, so amounts are modelled as \<^typ>\<open>rat\<close>. In this first model the arithmetic of the
  source (\<^verbatim>\<open>+\<close>, \<^verbatim>\<open>-\<close>, \<^verbatim>\<open>*\<close>, \<^verbatim>\<open>/\<close>) is exact and only the decimal rounding
  \<^verbatim>\<open>round(x, 2)\<close>, which the source calls explicitly, rounds. It serves the properties
  of signs and of the state, whose margins are far above the rounding error of a float
  operation (about \<open>10\<^sup>-\<^sup>1\<^sup>6\<close> relative). The property of the sum of the shares turns
  on that rounding error; for it the allocator is written out in double precision in a
  section of its own.

  The module \<^verbatim>\<open>random\<close> is modelled by the values it hands out: \<open>u k\<close> is the value of
  the \<open>k\<close>-th call of \<^verbatim>\<open>random.random()\<close> (a number of the unit interval), \<open>rb k\<close> a raw
  natural number from which \<^verbatim>\<open>randbelow(n)\<close> takes \<open>rb k mod n\<close>.
\<close>

definition round_half_even :: "rat \<Rightarrow> int" where
  "round_half_even x =
     (let f = \<lfloor>x\<rfloor>; d = x - of_int f
      in if d < 1/2 then f
         else if 1/2 < d then f + 1
         else if even f then f else f + 1)"

text \<open>\<^verbatim>\<open>round(x, 2)\<close>: the nearest multiple of \<open>1/100\<close>, ties to the even hundredth.\<close>

definition round2 :: "rat \<Rightarrow> rat" where
  "round2 x = of_int (round_half_even (x * 100)) / 100"

text \<open>\<^verbatim>\<open>random.uniform(a, b)\<close> is \<^verbatim>\<open>a + (b - a) * self.random()\<close>.\<close>

definition uniform :: "rat \<Rightarrow> rat \<Rightarrow> rat \<Rightarrow> rat" where
  "uniform a b r = a + (b - a) * r"

text \<open>
  \<^verbatim>\<open>random.shuffle(x)\<close>:
  \<^verbatim>\<open>for i in reversed(range(1, len(x))): j = randbelow(i + 1); x[i], x[j] = x[j], x[i]\<close>.
  The first call of \<^verbatim>\<open>randbelow\<close> is made at position \<open>len(x) - 1\<close>, so the draw
  used at position \<open>i\<close> is the one numbered \<open>len(x) - 1 - i\<close>.
\<close>

definition swap :: "nat \<Rightarrow> nat \<Rightarrow> 'a list \<Rightarrow> 'a list" where
  "swap i j xs = xs[i := xs ! j, j := xs ! i]"

fun shuffle_from :: "nat \<Rightarrow> (nat \<Rightarrow> nat) \<Rightarrow> 'a list \<Rightarrow> 'a list" where
  "shuffle_from 0 rb xs = xs"
| "shuffle_from (Suc i) rb xs =
     (let j = rb (length xs - 1 - Suc i) mod (Suc i + 1)
      in shuffle_from i rb (swap (Suc i) j xs))"

definition shuffle :: "(nat \<Rightarrow> nat) \<Rightarrow> 'a list \<Rightarrow> 'a list" where
  "shuffle rb xs = shuffle_from (length xs - 1) rb xs"

text \<open>Finite prefixes of draws, continued with zeros, for concrete runs.\<close>

definition draws_of :: "rat list \<Rightarrow> nat \<Rightarrow> rat" where
  "draws_of xs k = (if k < length xs then xs ! k else 0)"

definition picks_of :: "nat list \<Rightarrow> nat \<Rightarrow> nat" where
  "picks_of xs k = (if k < length xs then xs ! k else 0)"

text \<open>\<^verbatim>\<open>random.choice(seq)\<close> is \<^verbatim>\<open>seq[randbelow(len(seq))]\<close>; \<open>k\<close> numbers the call.\<close>

definition choice :: "(nat \<Rightarrow> nat) \<Rightarrow> nat \<Rightarrow> 'a list \<Rightarrow> 'a" where
  "choice rb k xs = xs ! (rb k mod length xs)"

section \<open>The reward allocator\<close>

text \<open>
  A Python \<^verbatim>\<open>dict\<close> is an association list with distinct keys in insertion order;
  \<^verbatim>\<open>dict(pairs)\<close> inserts the pairs from left to right, a later pair overwriting the value
  of an equal key in place.
\<close>

type_synonym ('k, 'v) dict = "('k \<times> 'v) list"

definition dict_of :: "('k \<times> 'v) list \<Rightarrow> ('k, 'v) dict" where
  "dict_of ps = fold (\<lambda>(k, v) d. AList.update k v d) ps []"

definition dict_values :: "('k, 'v) dict \<Rightarrow> 'v list" where
  "dict_values d = map snd d"

definition dict_get :: "('k, 'v) dict \<Rightarrow> 'k \<Rightarrow> 'v \<Rightarrow> 'v" where
  "dict_get d k dflt = (case map_of d k of None \<Rightarrow> dflt | Some v \<Rightarrow> v)"

text \<open>
  The loop of \<^verbatim>\<open>scramble_money\<close>: \<open>n\<close> is \<^verbatim>\<open>len(winners)\<close>, \<open>i\<close> the loop variable and the
  fourth argument the number of iterations still to run.
\<close>

fun scramble_loop ::
  "(nat \<Rightarrow> rat) \<Rightarrow> nat \<Rightarrow> nat \<Rightarrow> nat \<Rightarrow> rat list \<Rightarrow> rat \<Rightarrow> rat list \<times> rat" where
  "scramble_loop u n i 0 shares remaining = (shares, remaining)"
| "scramble_loop u n i (Suc k) shares remaining =
     (let share = round2 (uniform (1/2) ((remaining / of_nat (n - i)) * (13/10)) (u i))
      in scramble_loop u n (Suc i) k (shares @ [share]) (remaining - share))"

definition scramble_money ::
  "(nat \<Rightarrow> rat) \<Rightarrow> (nat \<Rightarrow> nat) \<Rightarrow> rat \<Rightarrow> 'w list \<Rightarrow> ('w, rat) dict" where
  "scramble_money u rb tot winners =
     (if winners = [] then []
      else
        let (shares, remaining) = scramble_loop u (length winners) 0 (length winners - 1) [] tot;
            shares = shares @ [round2 remaining];
            shares = shuffle rb shares
        in dict_of (zip winners shares))"

section \<open>The allocator in double precision\<close>

text \<open>
  Whether the shares add up to the pot depends on the rounding of the float operations,
  so \<^verbatim>\<open>scramble_money\<close> is also written out with them. A finite double is a rational
  number with a significand of 53 bits; \<open>fl x\<close> is the double nearest to \<open>x\<close>, ties going
  to the even significand. The range of the exponent is not bounded: there is no overflow
  to infinity and there are no subnormal numbers. A float operation of the source is the
  exact operation followed by \<open>fl\<close>, as IEEE 754 defines it.
\<close>

function log2_int :: "int \<Rightarrow> int" where
  "log2_int a = (if a < 2 then 0 else 1 + log2_int (a div 2))"
  by pat_completeness auto
termination
  by (relation "measure nat") auto

declare log2_int.simps [simp del]

text \<open>The exponent \<open>e\<close> with \<open>2\<^sup>e \<le> |x| < 2\<^sup>e\<^sup>+\<^sup>1\<close>, for \<open>x \<noteq> 0\<close>.\<close>

definition binade :: "rat \<Rightarrow> int" where
  "binade x =
     (let (a, b) = quotient_of \<bar>x\<bar>;
          e = log2_int a - log2_int b
      in if power_int 2 e \<le> \<bar>x\<bar> then e else e - 1)"

definition fl :: "rat \<Rightarrow> rat" where
  "fl x = (if x = 0 then 0
           else let q = power_int 2 (binade x - 52)
                in of_int (round_half_even (x / q)) * q)"

text \<open>
  \<^verbatim>\<open>round(x, 2)\<close> on a float: the decimal with two places nearest to the exact value of
  \<open>x\<close> (ties to the even hundredth), converted to the nearest double.
\<close>

definition round2_float :: "rat \<Rightarrow> rat" where
  "round2_float x = fl (of_int (round_half_even (x * 100)) / 100)"

text \<open>\<^verbatim>\<open>a + (b - a) * self.random()\<close>\<close>

definition uniform_float :: "rat \<Rightarrow> rat \<Rightarrow> rat \<Rightarrow> rat" where
  "uniform_float a b r = fl (a + fl (fl (b - a) * r))"

text \<open>The loop of \<^verbatim>\<open>scramble_money\<close>; the literal \<^verbatim>\<open>1.3\<close> is the double \<open>fl (13/10)\<close>.\<close>

fun scramble_loop_float ::
  "(nat \<Rightarrow> rat) \<Rightarrow> nat \<Rightarrow> nat \<Rightarrow> nat \<Rightarrow> rat list \<Rightarrow> rat \<Rightarrow> rat list \<times> rat" where
  "scramble_loop_float u n i 0 shares remaining = (shares, remaining)"
| "scramble_loop_float u n i (Suc k) shares remaining =
     (let share = round2_float
            (uniform_float (1/2) (fl (fl (remaining / of_nat (n - i)) * fl (13/10))) (u i))
      in scramble_loop_float u n (Suc i) k (shares @ [share]) (fl (remaining - share)))"

definition scramble_money_float ::
  "(nat \<Rightarrow> rat) \<Rightarrow> (nat \<Rightarrow> nat) \<Rightarrow> rat \<Rightarrow> 'w list \<Rightarrow> ('w, rat) dict" where
  "scramble_money_float u rb tot winners =
     (if winners = [] then []
      else
        let (shares, remaining) =
              scramble_loop_float u (length winners) 0 (length winners - 1) [] tot;
            shares = shares @ [round2_float remaining];
            shares = shuffle rb shares
        in dict_of (zip winners shares))"

section \<open>Strings\<close>

text \<open>
  A Python \<^verbatim>\<open>str\<close> is modelled as a \<^typ>\<open>string\<close> whose characters are the code points
  0 to 255. \<^verbatim>\<open>str.strip()\<close> removes the characters for which \<^verbatim>\<open>str.isspace()\<close> holds.
\<close>

definition whitespace :: string where
  "whitespace = [CHR 0x09, CHR 0x0A, CHR 0x0B, CHR 0x0C, CHR 0x0D, CHR 0x1C, CHR 0x1D,
                 CHR 0x1E, CHR 0x1F, CHR 0x20, CHR 0x85, CHR 0xA0]"

definition isspace :: "char \<Rightarrow> bool" where
  "isspace c = (c \<in> set whitespace)"

definition strip :: "string \<Rightarrow> string" where
  "strip s = rev (dropWhile isspace (rev (dropWhile isspace s)))"

text \<open>
  \<^verbatim>\<open>str.upper()\<close> on the code points 0 to 255. The result can leave this range (the
  micro sign 181 becomes 924, y with diaeresis 255 becomes 376) and can be longer than the
  argument (sharp s 223 becomes \<^verbatim>\<open>SS\<close>), so it is a list of code points. The letters \<^verbatim>\<open>a\<close>
  to \<^verbatim>\<open>z\<close> (97 to 122) and the accented letters 224 to 254, the division sign 247
  apart, move down by 32; every other character stays.
\<close>

definition upper_char :: "char \<Rightarrow> nat list" where
  "upper_char c =
     (let n = (of_char c :: nat)
      in if 97 \<le> n \<and> n \<le> 122 then [n - 32]
         else if n = 181 then [924]
         else if n = 223 then [83, 83]
         else if 224 \<le> n \<and> n \<le> 254 \<and> n \<noteq> 247 then [n - 32]
         else if n = 255 then [376]
         else [n])"

definition upper :: "string \<Rightarrow> nat list" where
  "upper s = concat (map upper_char s)"

definition code_points :: "string \<Rightarrow> nat list" where
  "code_points s = map of_char s"

text \<open>\<^verbatim>\<open>s.replace(c, new)\<close> for a one-character pattern \<open>c\<close>.\<close>

definition replace_char :: "char \<Rightarrow> string \<Rightarrow> string \<Rightarrow> string" where
  "replace_char c new s = concat (map (\<lambda>x. if x = c then new else [x]) s)"

text \<open>
  \<^verbatim>\<open>s.rsplit(sep, 1)\<close> for a non-empty separator: the string is cut at the rightmost
  place where \<open>sep\<close> occurs, and is returned whole when \<open>sep\<close> does not occur.
  \<open>rsplit_last\<close> looks for an occurrence further right before it tries the current
  position.
\<close>

fun rsplit_last :: "string \<Rightarrow> string \<Rightarrow> (string \<times> string) option" where
  "rsplit_last sep [] = None"
| "rsplit_last sep (c # cs) =
     (case rsplit_last sep cs of
        Some (a, b) \<Rightarrow> Some (c # a, b)
      | None \<Rightarrow>
          if take (length sep) (c # cs) = sep then Some ([], drop (length sep) (c # cs))
          else None)"

definition rsplit1 :: "string \<Rightarrow> string \<Rightarrow> string list" where
  "rsplit1 s sep = (case rsplit_last sep s of None \<Rightarrow> [s] | Some (a, b) \<Rightarrow> [a, b])"

text \<open>\<^verbatim>\<open>str(n)\<close> for a natural number.\<close>

fun str_nat :: "nat \<Rightarrow> string" where
  "str_nat n = (if n < 10 then [''0123456789'' ! n]
                else str_nat (n div 10) @ [''0123456789'' ! (n mod 10)])"

section \<open>The game engine\<close>

text \<open>
  The session state is the dictionary \<^verbatim>\<open>state\<close> of \<^verbatim>\<open>game_logic\<close>; its \<^verbatim>\<open>'status'\<close> is only
  ever \<^verbatim>\<open>'IDLE'\<close> or \<^verbatim>\<open>'WAITING'\<close>.
\<close>

datatype status = IDLE | WAITING

record session =
  status :: status
  balance :: rat
  secret_key :: string
  chat_history :: "string list"

text \<open>
  What the world answers during one call of \<^verbatim>\<open>game_logic\<close>: the text returned by
  \<^verbatim>\<open>generate_family_reactions\<close>, the text returned by \<^verbatim>\<open>generate_lunar_challenge\<close>, and
  the draws of \<^verbatim>\<open>random\<close>, numbered in the order of the calls.
\<close>

record world =
  chat_reply :: string
  challenge_reply :: string
  rand_unit :: "nat \<Rightarrow> rat"
  rand_below :: "nat \<Rightarrow> nat"

text \<open>The calls made to the two text generators, with their argument.\<close>

datatype request = Reactions string | Challenge string

record member_result =
  guess :: string
  correct :: bool
  gain :: rat

text \<open>The arguments that the answer branch passes to \<^verbatim>\<open>format_result_card\<close>.\<close>

record verdict =
  user_correct :: bool
  user_gain :: rat
  family_results :: "(string, member_result) dict"
  secret_shown :: string
  total_wealth :: rat

text \<open>
  What one call shows when it has run to its last \<^verbatim>\<open>yield\<close>: the question block
  \<^verbatim>\<open>display_q\<close> of the question branch, or the verdict of the answer branch. The chat
  transcript \<^verbatim>\<open>history\<close>, the HTML around these values and the visibility of the widgets
  are presentation and are not modelled.
\<close>

datatype shown = Asked string | Judged verdict

record outcome =
  state_after :: session
  requests :: "request list"
  display :: shown

definition initial_state :: session where
  "initial_state = \<lparr>status = IDLE, balance = 0, secret_key = [], chat_history = []\<rparr>"

definition family_members_list :: "string list" where
  "family_members_list = [''Xiao Ming'', ''Auntie May'', ''Uncle Chen'']"

definition letters :: "string list" where
  "letters = [''A'', ''B'', ''C'', ''D'']"

text \<open>
  \<^verbatim>\<open>for member in family_members_list\<close>: \<open>k\<close> numbers the call of \<^verbatim>\<open>random.choice\<close>.
\<close>

fun family_round ::
  "(nat \<Rightarrow> nat) \<Rightarrow> string \<Rightarrow> nat \<Rightarrow> string list \<Rightarrow> string list \<Rightarrow>
   (string, member_result) dict \<Rightarrow> string list \<times> (string, member_result) dict" where
  "family_round rb key k [] winners family_data = (winners, family_data)"
| "family_round rb key k (member # rest) winners family_data =
     (let g = choice rb k letters;
          is_correct = (g = key);
          winners = (if is_correct then winners @ [member] else winners);
          family_data =
            AList.update member \<lparr>guess = g, correct = is_correct, gain = 0\<rparr> family_data
      in family_round rb key (Suc k) rest winners family_data)"

text \<open>\<^verbatim>\<open>user_input.strip().upper() == state['secret_key']\<close>\<close>

definition answer_correct :: "string \<Rightarrow> string \<Rightarrow> bool" where
  "answer_correct user_input key = (upper (strip user_input) = code_points key)"

text \<open>The branch \<^verbatim>\<open>state['status'] == 'IDLE'\<close>.\<close>

definition start_round :: "string \<Rightarrow> session \<Rightarrow> world \<Rightarrow> outcome" where
  "start_round region st w =
     (let st = st\<lparr>chat_history := chat_history st @ [chat_reply w]\<rparr>;
          raw_output = challenge_reply w;
          parts = rsplit1 raw_output ''|||'';
          st = st\<lparr>secret_key := (if length parts > 1 then strip (last parts) else ''A'')\<rparr>;
          st = st\<lparr>status := WAITING\<rparr>;
          display_q = replace_char (CHR 0x0A) ''<br>'' (strip (hd parts))
      in \<lparr>state_after = st,
          requests =
            [Reactions (''The family is waiting for a new question about '' @ region @ ''.''),
             Challenge region],
          display = Asked display_q\<rparr>)"

text \<open>The branch \<^verbatim>\<open>state['status'] == 'WAITING'\<close>.\<close>

definition submit_answer :: "string \<Rightarrow> session \<Rightarrow> world \<Rightarrow> outcome" where
  "submit_answer user_input st w =
     (let ok = answer_correct user_input (secret_key st);
          winners = (if ok then [''You''] else []);
          (winners, family_data) =
            family_round (rand_below w) (secret_key st) 0 family_members_list winners [];
          pot = round2 (uniform (888/100) (3888/100) (rand_unit w 0));
          payouts = scramble_money (\<lambda>k. rand_unit w (Suc k)) (\<lambda>k. rand_below w (3 + k))
                      pot winners;
          won = dict_get payouts ''You'' 0;
          st = st\<lparr>balance := balance st + won\<rparr>;
          st = st\<lparr>status := IDLE\<rparr>;
          st = st\<lparr>chat_history := chat_history st @ [chat_reply w]\<rparr>;
          family_data =
            map (\<lambda>(name, d). (name, d\<lparr>gain := dict_get payouts name 0\<rparr>)) family_data
      in \<lparr>state_after = st,
          requests =
            [Reactions (''Correct answer: '' @ secret_key st @ ''. ''
                        @ str_nat (length winners) @ '' people won.'')],
          display =
            Judged \<lparr>user_correct = ok, user_gain = won, family_results = family_data,
                    secret_shown = secret_key st, total_wealth = balance st\<rparr>\<rparr>)"

text \<open>
  \<^verbatim>\<open>game_logic(user_input, region, history, state)\<close>, run to its last \<^verbatim>\<open>yield\<close>; \<open>None\<close> is
  the \<^verbatim>\<open>state\<close> of a session that has not played yet.
\<close>

definition session_of :: "session option \<Rightarrow> session" where
  "session_of state = (case state of None \<Rightarrow> initial_state | Some s \<Rightarrow> s)"

definition game_logic :: "string \<Rightarrow> string \<Rightarrow> session option \<Rightarrow> world \<Rightarrow> outcome" where
  "game_logic user_input region state w =
     (let st = session_of state
      in case status st of
           IDLE \<Rightarrow> start_round region st w
         | WAITING \<Rightarrow> submit_answer user_input st w)"

text \<open>Whether a call judged an answer, and how.\<close>

definition judged_correct :: "outcome \<Rightarrow> bool option" where
  "judged_correct out = (case display out of Asked q \<Rightarrow> None | Judged v \<Rightarrow> Some (user_correct v))"

text \<open>
  A session: the calls of \<^verbatim>\<open>game_logic\<close> one after the other, each on the state the
  previous one left.
\<close>

fun play :: "session option \<Rightarrow> (string \<times> string \<times> world) list \<Rightarrow> session option" where
  "play state [] = state"
| "play state ((user_input, region, w) # rest) =
     play (Some (state_after (game_logic user_input region state w))) rest"

text \<open>
  The comparison that the specification asks of answer evaluation: two characters are the
  same letter when letter case is ignored.
\<close>

definition same_letter_ignoring_case :: "char \<Rightarrow> char \<Rightarrow> bool" where
  "same_letter_ignoring_case c d =
     (c = d \<or>
      (c, d) \<in> set (zip ''abcdefghijklmnopqrstuvwxyz'' ''ABCDEFGHIJKLMNOPQRSTUVWXYZ'') \<or>
      (d, c) \<in> set (zip ''abcdefghijklmnopqrstuvwxyz'' ''ABCDEFGHIJKLMNOPQRSTUVWXYZ''))"

subsection \<open>Concrete sessions\<close>

text \<open>
  A world in which the question generator follows the format, and variants of it whose
  generator answers without the delimiter and with the delimiter twice.
\<close>

definition sample_world :: world where
  "sample_world =
     \<lparr>chat_reply = ''Auntie May: So lucky!'',
      challenge_reply = ''Q? A) x B) y C) z D) w ||| C'',
      rand_unit = draws_of [1/4, 1/2, 3/4, 1/8],
      rand_below = picks_of [2, 1, 2, 0, 1, 1]\<rparr>"

definition no_delimiter_world :: world where
  "no_delimiter_world = sample_world\<lparr>challenge_reply := ''Q? A) x B) y C) z D) w''\<rparr>"

definition two_delimiter_world :: world where
  "two_delimiter_world = sample_world\<lparr>challenge_reply := ''Q? A) x ||| y B) z ||| D ''\<rparr>"

definition waiting_state :: session where
  "waiting_state =
     \<lparr>status = WAITING, balance = 0, secret_key = ''B'',
      chat_history = [''Uncle Chen: What is the question?'']\<rparr>"

section \<open>Decimal rounding\<close>

lemma round_half_even_cases:
  "round_half_even x = round x \<or> (round_half_even x = \<lfloor>x\<rfloor> \<and> x = of_int \<lfloor>x\<rfloor> + 1/2)"
proof -
  have fl: "of_int \<lfloor>x\<rfloor> \<le> x" "x < of_int \<lfloor>x\<rfloor> + 1" by linarith+
  show ?thesis
  proof (cases "x - of_int \<lfloor>x\<rfloor> < 1/2")
    case True
    then have "\<lfloor>x + 1/2\<rfloor> = \<lfloor>x\<rfloor>" using fl by linarith
    then show ?thesis using True by (simp add: round_half_even_def round_def Let_def)
  next
    case False
    then have "\<lfloor>x + 1/2\<rfloor> = \<lfloor>x\<rfloor> + 1" using fl by linarith
    then show ?thesis using False by (auto simp add: round_half_even_def round_def Let_def)
  qed
qed

lemma round_half_even_error: "\<bar>of_int (round_half_even x) - x\<bar> \<le> 1/2"
  using round_half_even_cases [of x] of_int_round_abs_le [of x] by auto

lemma round_half_even_le_round: "round_half_even x \<le> round x"
proof -
  have "\<lfloor>x\<rfloor> \<le> round x" by (simp add: round_def floor_mono)
  then show ?thesis using round_half_even_cases [of x] by auto
qed

lemma round_half_even_mono:
  assumes "x \<le> y"
  shows "round_half_even x \<le> round_half_even y"
proof (cases "round_half_even y = round y")
  case True
  then show ?thesis
    using round_half_even_le_round [of x] round_mono [OF assms] by simp
next
  case False
  then have y: "round_half_even y = \<lfloor>y\<rfloor>" "y = of_int \<lfloor>y\<rfloor> + 1/2"
    using round_half_even_cases [of y] by auto
  show ?thesis
  proof (cases "x = y")
    case True
    then show ?thesis by simp
  next
    case False
    then have "x + 1/2 < of_int (\<lfloor>y\<rfloor> + 1)" using assms y(2) by simp
    then have "\<lfloor>x + 1/2\<rfloor> < \<lfloor>y\<rfloor> + 1" by (simp only: floor_less_iff)
    then have "round x \<le> \<lfloor>y\<rfloor>" by (simp add: round_def)
    then show ?thesis using round_half_even_le_round [of x] y(1) by simp
  qed
qed

lemma round_half_even_of_int [simp]: "round_half_even (of_int n) = n"
  by (simp add: round_half_even_def)

lemma round2_mono: "x \<le> y \<Longrightarrow> round2 x \<le> round2 y"
  by (simp add: round2_def round_half_even_mono divide_right_mono)

lemma round2_error: "\<bar>round2 x - x\<bar> \<le> 1/200"
proof -
  have "\<bar>of_int (round_half_even (x * 100)) - x * 100\<bar> \<le> 1/2"
    by (rule round_half_even_error)
  then show ?thesis by (simp add: round2_def field_simps abs_le_iff)
qed

lemma round2_zero [simp]: "round2 0 = 0"
  by (simp add: round2_def round_half_even_def)

lemma round2_half [simp]: "round2 (1/2) = 1/2"
  by (simp add: round2_def round_half_even_def)

lemma round2_nonneg: "0 \<le> x \<Longrightarrow> 0 \<le> round2 x"
  using round2_mono [of 0 x] by simp

section \<open>Properties of the allocator\<close>

lemma scramble_loop_length:
  "scramble_loop u n i k shares r = (shares', r') \<Longrightarrow> length shares' = length shares + k"
  by (induction k arbitrary: i shares r) (auto simp: Let_def)

lemma length_swap [simp]: "length (swap i j xs) = length xs"
  by (simp add: swap_def)

lemma mset_swap_list: "i < length xs \<Longrightarrow> j < length xs \<Longrightarrow> mset (swap i j xs) = mset xs"
  unfolding swap_def by (rule mset_swap)

lemma length_shuffle_from [simp]: "length (shuffle_from i rb xs) = length xs"
  by (induction i arbitrary: xs) (simp_all add: Let_def)

lemma mset_shuffle_from:
  "i < length xs \<or> i = 0 \<Longrightarrow> mset (shuffle_from i rb xs) = mset xs"
proof (induction i arbitrary: xs)
  case 0
  then show ?case by simp
next
  case (Suc i)
  then have len: "Suc i < length xs" by simp
  have j: "rb (length xs - 1 - Suc i) mod (Suc i + 1) < length xs"
    using len mod_less_divisor [of "Suc i + 1" "rb (length xs - 1 - Suc i)"] by linarith
  have "mset (shuffle_from i rb (swap (Suc i) (rb (length xs - 1 - Suc i) mod (Suc i + 1)) xs))
        = mset (swap (Suc i) (rb (length xs - 1 - Suc i) mod (Suc i + 1)) xs)"
    using len by (intro Suc.IH) simp
  also have "\<dots> = mset xs" using len j by (rule mset_swap_list)
  finally show ?case by (simp add: Let_def)
qed

lemma mset_shuffle [simp]: "mset (shuffle rb xs) = mset xs"
  unfolding shuffle_def by (rule mset_shuffle_from) (cases xs; simp)

lemma length_shuffle [simp]: "length (shuffle rb xs) = length xs"
  by (simp add: shuffle_def)

lemma sum_list_shuffle: "sum_list (shuffle rb xs) = sum_list (xs :: rat list)"
  using mset_shuffle [of rb xs] by (metis sum_mset_sum_list)

lemma set_shuffle: "set (shuffle rb xs) = set xs"
  using mset_shuffle [of rb xs] by (metis set_mset_mset)

lemma update_fresh: "k \<notin> fst ` set d \<Longrightarrow> AList.update k v d = d @ [(k, v)]"
  by (induction d) auto

lemma fold_update_fresh:
  "distinct (map fst ps) \<Longrightarrow> fst ` set ps \<inter> fst ` set d = {} \<Longrightarrow>
   fold (\<lambda>(k, v) d. AList.update k v d) ps d = d @ ps"
proof (induction ps arbitrary: d)
  case Nil
  then show ?case by simp
next
  case (Cons p ps)
  obtain k v where p: "p = (k, v)" by (cases p)
  have fresh: "k \<notin> fst ` set d" using Cons.prems(2) p by auto
  have "fold (\<lambda>(k, v) d. AList.update k v d) ps (d @ [(k, v)]) = (d @ [(k, v)]) @ ps"
    using Cons.prems p by (intro Cons.IH) auto
  then show ?case using fresh p by (simp add: update_fresh)
qed

lemma dict_of_distinct: "distinct (map fst ps) \<Longrightarrow> dict_of ps = ps"
  using fold_update_fresh [of ps "[]"] by (simp add: dict_of_def)

lemma dict_of_zip:
  "distinct ks \<Longrightarrow> length ks = length vs \<Longrightarrow> dict_of (zip ks vs) = zip ks vs"
  by (rule dict_of_distinct) simp

lemma scramble_money_shares:
  assumes "winners \<noteq> []" and "distinct winners"
  obtains shares r where
    "scramble_loop u (length winners) 0 (length winners - 1) [] tot = (shares, r)"
    "scramble_money u rb tot winners = zip winners (shuffle rb (shares @ [round2 r]))"
    "length (shares @ [round2 r]) = length winners"
proof -
  obtain shares r where
    loop: "scramble_loop u (length winners) 0 (length winners - 1) [] tot = (shares, r)"
    by (cases "scramble_loop u (length winners) 0 (length winners - 1) [] tot")
  have len: "length (shares @ [round2 r]) = length winners"
    using scramble_loop_length [OF loop] assms(1) by (cases winners) auto
  have "scramble_money u rb tot winners = zip winners (shuffle rb (shares @ [round2 r]))"
    using assms loop len by (simp add: scramble_money_def dict_of_zip)
  then show thesis using loop len that by blast
qed

lemma uniform_between:
  assumes "0 \<le> r" and "r \<le> 1"
  shows "min a b \<le> uniform a b r" and "uniform a b r \<le> max a b"
proof -
  have eq: "uniform a b r = (1 - r) * a + r * b"
    by (simp add: uniform_def algebra_simps)
  have lo: "(1 - r) * min a b \<le> (1 - r) * a" "r * min a b \<le> r * b"
    using assms by (auto intro: mult_left_mono)
  have hi: "(1 - r) * a \<le> (1 - r) * max a b" "r * b \<le> r * max a b"
    using assms by (auto intro: mult_left_mono)
  have "(1 - r) * min a b + r * min a b = min a b" "(1 - r) * max a b + r * max a b = max a b"
    by (simp_all add: algebra_simps)
  then show "min a b \<le> uniform a b r" and "uniform a b r \<le> max a b"
    using lo hi eq by linarith+
qed

lemma share_step:
  assumes r: "0 \<le> r" "r \<le> 1"
    and k: "1 \<le> k" "k \<le> 3"
    and rem: "of_nat k / 2 \<le> remaining"
  defines "share \<equiv> round2 (uniform (1/2) ((remaining / of_nat (Suc k)) * (13/10)) r)"
  shows "0 \<le> share" and "of_nat (k - 1) / 2 \<le> remaining - share"
proof -
  define hi where "hi = (remaining / of_nat (Suc k)) * (13/10)"
  have k_cases: "k = 1 \<or> k = 2 \<or> k = 3" using k by linarith
  have rem0: "0 \<le> remaining" using rem k
    by (meson divide_nonneg_nonneg of_nat_0_le_iff order_trans zero_le_numeral)
  then have hi0: "0 \<le> hi" by (simp add: hi_def)
  have lo: "min (1/2) hi \<le> uniform (1/2) hi r" and up: "uniform (1/2) hi r \<le> max (1/2) hi"
    using uniform_between [OF r] by blast+
  have "0 \<le> uniform (1/2) hi r" using lo hi0 by (simp add: min_def split: if_splits)
  then show "0 \<le> share" unfolding share_def hi_def [symmetric] by (rule round2_nonneg)
  have "round2 (uniform (1/2) hi r) \<le> round2 (max (1/2) hi)"
    using up by (rule round2_mono)
  moreover have "round2 (max (1/2) hi) \<le> max (1/2) (hi + 1/200)"
  proof (cases "1/2 \<le> hi")
    case True
    have "round2 hi \<le> hi + 1/200" using round2_error [of hi] by linarith
    then show ?thesis using True by (simp add: max_def)
  next
    case False
    then show ?thesis by (simp add: max_def)
  qed
  ultimately have share_le: "share \<le> max (1/2) (hi + 1/200)"
    unfolding share_def hi_def [symmetric] by simp
  show "of_nat (k - 1) / 2 \<le> remaining - share"
    using k_cases
  proof (elim disjE)
    assume "k = 1"
    then show ?thesis using share_le rem by (auto simp: hi_def max_def split: if_splits)
  next
    assume "k = 2"
    then show ?thesis using share_le rem by (auto simp: hi_def max_def split: if_splits)
  next
    assume "k = 3"
    then show ?thesis using share_le rem by (auto simp: hi_def max_def split: if_splits)
  qed
qed

lemma scramble_loop_nonneg:
  assumes "\<forall>j. 0 \<le> u j \<and> u j \<le> 1"
    and "n - i = Suc k" and "k \<le> 3"
    and "of_nat k / 2 \<le> remaining"
    and "\<forall>s \<in> set shares. 0 \<le> s"
    and "scramble_loop u n i k shares remaining = (shares', r')"
  shows "(\<forall>s \<in> set shares'. 0 \<le> s) \<and> 0 \<le> r'"
  using assms(2-)
proof (induction k arbitrary: i shares remaining)
  case 0
  then show ?case by simp
next
  case (Suc k)
  define share where
    "share = round2 (uniform (1/2) ((remaining / of_nat (Suc (Suc k))) * (13/10)) (u i))"
  have u: "0 \<le> u i" "u i \<le> 1" using assms(1) by auto
  have step: "0 \<le> share" "of_nat (Suc k - 1) / 2 \<le> remaining - share"
    unfolding share_def using Suc.prems(2,3) by (intro share_step [OF u]; simp)+
  have loop: "scramble_loop u n (Suc i) k (shares @ [share]) (remaining - share) = (shares', r')"
    using Suc.prems(5) Suc.prems(1) by (simp add: Let_def share_def)
  show ?case
  proof (rule Suc.IH [OF _ _ _ _ loop])
    show "n - Suc i = Suc k" using Suc.prems(1) by simp
    show "k \<le> 3" using Suc.prems(2) by simp
    show "of_nat k / 2 \<le> remaining - share" using step(2) by simp
    show "\<forall>s \<in> set (shares @ [share]). 0 \<le> s" using Suc.prems(4) step(1) by auto
  qed
qed

lemma scramble_money_nonneg_shares:
  assumes u: "\<forall>j. 0 \<le> u j \<and> u j \<le> 1"
    and winners: "distinct winners" "length winners \<le> 4"
    and pot: "of_nat (length winners - 1) / 2 \<le> p"
  shows "\<forall>(name, share) \<in> set (scramble_money u rb p winners). 0 \<le> share"
proof (cases "winners = []")
  case True
  then show ?thesis by (simp add: scramble_money_def)
next
  case False
  obtain shares r where
    loop: "scramble_loop u (length winners) 0 (length winners - 1) [] p = (shares, r)" and
    res: "scramble_money u rb p winners = zip winners (shuffle rb (shares @ [round2 r]))"
    using scramble_money_shares [OF False winners(1)] by blast
  have "(\<forall>s \<in> set shares. 0 \<le> s) \<and> 0 \<le> r"
  proof (rule scramble_loop_nonneg [OF u _ _ _ _ loop])
    show "length winners - 0 = Suc (length winners - 1)" using False by (cases winners) auto
    show "length winners - 1 \<le> 3" using winners(2) by simp
    show "of_nat (length winners - 1) / 2 \<le> p" by (rule pot)
    show "\<forall>s \<in> set []. (0::rat) \<le> s" by simp
  qed
  then have "\<forall>s \<in> set (shares @ [round2 r]). 0 \<le> s"
    by (auto intro: round2_nonneg)
  then have "\<forall>s \<in> set (shuffle rb (shares @ [round2 r])). 0 \<le> s"
    by (simp only: set_shuffle)
  then show ?thesis unfolding res by (auto dest: set_zip_rightD)
qed

section \<open>Properties of the allocator in double precision\<close>

lemma log2_int_bounds:
  "1 \<le> a \<Longrightarrow> 0 \<le> log2_int a \<and> 2 ^ nat (log2_int a) \<le> a \<and> a < 2 * 2 ^ nat (log2_int a)"
proof (induction a rule: log2_int.induct)
  case (1 a)
  show ?case
  proof (cases "a < 2")
    case True
    then have "a = 1" using "1.prems" by simp
    then show ?thesis by (simp add: log2_int.simps)
  next
    case False
    then have half: "1 \<le> a div 2" by simp
    have ih: "0 \<le> log2_int (a div 2)" "2 ^ nat (log2_int (a div 2)) \<le> a div 2"
      "a div 2 < 2 * 2 ^ nat (log2_int (a div 2))"
      using "1.IH" [OF False half] by auto
    have eq: "log2_int a = 1 + log2_int (a div 2)"
      using False by (subst log2_int.simps) simp
    have pw: "(2::int) ^ nat (log2_int a) = 2 * 2 ^ nat (log2_int (a div 2))"
      using ih(1) by (simp add: eq nat_add_distrib)
    define P :: int where "P = 2 ^ nat (log2_int (a div 2))"
    have "P \<le> a div 2" "a div 2 < 2 * P" using ih by (simp_all add: P_def)
    then have "2 * P \<le> a" "a < 2 * (2 * P)" by linarith+
    then show ?thesis using ih(1) pw eq by (simp add: P_def)
  qed
qed

lemma binade_le:
  assumes "x \<noteq> 0"
  shows "power_int 2 (binade x) \<le> \<bar>x\<bar>"
proof -
  obtain a b where q: "quotient_of \<bar>x\<bar> = (a, b)" by (cases "quotient_of \<bar>x\<bar>")
  have b: "0 < b" using q by (rule quotient_of_denom_pos)
  have x: "\<bar>x\<bar> = of_int a / of_int b" using q by (rule quotient_of_div)
  have "0 < \<bar>x\<bar>" using assms by simp
  then have "0 < (of_int a :: rat)" using x b by (simp add: zero_less_divide_iff)
  then have a: "1 \<le> a" by simp
  define la where "la = log2_int a"
  define lb where "lb = log2_int b"
  have la: "0 \<le> la" "2 ^ nat la \<le> a" using log2_int_bounds [OF a] by (auto simp: la_def)
  have lb: "0 \<le> lb" "b < 2 * 2 ^ nat lb" using log2_int_bounds [of b] b by (auto simp: lb_def)
  have "(of_int (2 ^ nat la) :: rat) \<le> of_int a" using la(2) by (simp only: of_int_le_iff)
  then have num: "(2::rat) ^ nat la \<le> of_int a" by simp
  have "(of_int b :: rat) \<le> of_int (2 * 2 ^ nat lb)" using lb(2) by (simp only: of_int_le_iff)
  then have den: "(of_int b :: rat) \<le> 2 * 2 ^ nat lb" by simp
  have "power_int 2 (la - lb - 1) = (2::rat) ^ nat la / (2 * 2 ^ nat lb)"
    using la(1) lb(1) by (simp add: power_int_diff power_int_nonneg_exp)
  also have "\<dots> \<le> of_int a / (2 * 2 ^ nat lb)"
    using num by (simp add: divide_right_mono)
  also have "\<dots> \<le> of_int a / of_int b"
    using den b a by (intro divide_left_mono) (auto simp: mult_pos_pos)
  finally have low: "power_int 2 (la - lb - 1) \<le> \<bar>x\<bar>" using x by simp
  show ?thesis
    using low by (simp add: binade_def q la_def lb_def Let_def)
qed

lemma binade_less:
  assumes "x \<noteq> 0"
  shows "\<bar>x\<bar> < 2 * power_int 2 (binade x)"
proof -
  obtain a b where q: "quotient_of \<bar>x\<bar> = (a, b)" by (cases "quotient_of \<bar>x\<bar>")
  have b: "0 < b" using q by (rule quotient_of_denom_pos)
  have x: "\<bar>x\<bar> = of_int a / of_int b" using q by (rule quotient_of_div)
  have "0 < \<bar>x\<bar>" using assms by simp
  then have "0 < (of_int a :: rat)" using x b by (simp add: zero_less_divide_iff)
  then have a: "1 \<le> a" by simp
  define la where "la = log2_int a"
  define lb where "lb = log2_int b"
  have la: "0 \<le> la" "a < 2 * 2 ^ nat la" using log2_int_bounds [OF a] by (auto simp: la_def)
  have lb: "0 \<le> lb" "2 ^ nat lb \<le> b" using log2_int_bounds [of b] b by (auto simp: lb_def)
  have "(of_int a :: rat) < of_int (2 * 2 ^ nat la)" using la(2) by (simp only: of_int_less_iff)
  then have num: "(of_int a :: rat) < 2 * 2 ^ nat la" by simp
  have "(of_int (2 ^ nat lb) :: rat) \<le> of_int b" using lb(2) by (simp only: of_int_le_iff)
  then have den: "(2::rat) ^ nat lb \<le> of_int b" by simp
  have "of_int a / of_int b < (2 * 2 ^ nat la) / (of_int b :: rat)"
    using num b by (simp add: divide_strict_right_mono)
  also have "\<dots> \<le> (2 * 2 ^ nat la) / 2 ^ nat lb"
    using den b by (intro divide_left_mono) (auto simp: mult_pos_pos)
  also have "\<dots> = 2 * power_int 2 (la - lb)"
    using la(1) lb(1) by (simp add: power_int_diff power_int_nonneg_exp)
  finally have up: "\<bar>x\<bar> < 2 * power_int 2 (la - lb)" using x by simp
  have "2 * power_int (2::rat) (la - lb - 1) = power_int 2 (la - lb)"
    by (simp add: power_int_diff)
  then show ?thesis
    using up by (auto simp: binade_def q la_def lb_def Let_def not_le)
qed

lemma fl_error: "\<bar>fl x - x\<bar> \<le> \<bar>x\<bar> / 2 ^ 53"
proof (cases "x = 0")
  case True
  then show ?thesis by (simp add: fl_def)
next
  case False
  define q :: rat where "q = power_int 2 (binade x - 52)"
  have qpos: "0 < q" by (simp add: q_def zero_less_power_int)
  have "q = power_int 2 (binade x) / 2 ^ 52"
    by (simp add: q_def power_int_diff)
  then have qle: "q \<le> \<bar>x\<bar> / 2 ^ 52"
    using binade_le [OF False] by (simp add: divide_right_mono)
  have "fl x - x = (of_int (round_half_even (x / q)) - x / q) * q"
    using False qpos by (simp add: fl_def q_def [symmetric] Let_def algebra_simps)
  then have "\<bar>fl x - x\<bar> = \<bar>of_int (round_half_even (x / q)) - x / q\<bar> * q"
    using qpos by (simp add: abs_mult)
  also have "\<dots> \<le> (1/2) * q"
    using round_half_even_error [of "x / q"] qpos by (intro mult_right_mono) auto
  also have "\<dots> \<le> (1/2) * (\<bar>x\<bar> / 2 ^ 52)"
    using qle by simp
  finally show ?thesis by simp
qed

lemma fl_abs_le:
  assumes "\<bar>x\<bar> \<le> B"
  shows "\<bar>fl x\<bar> \<le> B * (1001/1000)"
proof -
  have "\<bar>x\<bar> / 2 ^ 53 \<le> \<bar>x\<bar> / 1000" by (intro divide_left_mono) auto
  then have "\<bar>fl x\<bar> \<le> \<bar>x\<bar> + \<bar>x\<bar> / 1000" using fl_error [of x] by linarith
  then show ?thesis using assms by linarith
qed

lemma fl_drift:
  assumes "\<bar>x\<bar> \<le> B"
  shows "\<bar>fl x - x\<bar> \<le> B / 2 ^ 53"
proof -
  have "\<bar>x\<bar> / 2 ^ 53 \<le> B / 2 ^ 53" using assms by (simp add: divide_right_mono)
  then show ?thesis using fl_error [of x] by linarith
qed

lemma round2_float_error:
  assumes "\<bar>x\<bar> \<le> B"
  shows "\<bar>round2_float x - x\<bar> \<le> 1/200 + (B + 1/200) / 2 ^ 53"
proof -
  have e: "\<bar>round2 x - x\<bar> \<le> 1/200" by (rule round2_error)
  then have "\<bar>round2 x\<bar> \<le> B + 1/200" using assms by linarith
  then have "\<bar>fl (round2 x) - round2 x\<bar> \<le> (B + 1/200) / 2 ^ 53" by (rule fl_drift)
  moreover have "round2_float x = fl (round2 x)" by (simp add: round2_float_def round2_def)
  ultimately show ?thesis using e by linarith
qed

lemma round2_float_abs_le:
  assumes "\<bar>x\<bar> \<le> B"
  shows "\<bar>round2_float x\<bar> \<le> (B + 1/200) * (1001/1000)"
proof -
  have "\<bar>round2 x - x\<bar> \<le> 1/200" by (rule round2_error)
  then have "\<bar>round2 x\<bar> \<le> B + 1/200" using assms by linarith
  then have "\<bar>fl (round2 x)\<bar> \<le> (B + 1/200) * (1001/1000)" by (rule fl_abs_le)
  then show ?thesis by (simp add: round2_float_def round2_def)
qed

lemma abs_mult_le:
  fixes a b :: rat
  assumes "\<bar>a\<bar> \<le> A" and "\<bar>b\<bar> \<le> C"
  shows "\<bar>a * b\<bar> \<le> A * C"
proof -
  have "\<bar>a\<bar> * \<bar>b\<bar> \<le> A * C"
    using assms by (intro mult_mono) auto
  then show ?thesis by (simp add: abs_mult)
qed

lemma float_share_step:
  assumes r: "0 \<le> r" "r \<le> 1"
    and m: "2 \<le> m"
    and rem: "\<bar>remaining\<bar> \<le> R"
  defines "share \<equiv> round2_float
            (uniform_float (1/2) (fl (fl (remaining / of_nat m) * fl (13/10))) r)"
  shows "\<bar>fl (remaining - share)\<bar> \<le> 2 * R + 2"
    and "\<bar>fl (remaining - share) - (remaining - share)\<bar> \<le> (2 * R + 2) / 2 ^ 53"
proof -
  have R0: "0 \<le> R" using rem by linarith
  define q1 where "q1 = fl (remaining / of_nat m)"
  define c where "c = fl (13/10)"
  define hi where "hi = fl (q1 * c)"
  define t1 where "t1 = fl (hi - 1/2)"
  define t2 where "t2 = fl (t1 * r)"
  define d where "d = fl (1/2 + t2)"
  have share: "share = round2_float d"
    by (simp add: share_def uniform_float_def d_def t2_def t1_def hi_def c_def q1_def)
  have "(2::rat) \<le> of_nat m" using m by simp
  then have "\<bar>remaining\<bar> / of_nat m \<le> \<bar>remaining\<bar> / 2"
    by (intro divide_left_mono) auto
  then have "\<bar>remaining / of_nat m\<bar> \<le> R / 2" using rem by simp
  then have q1: "\<bar>q1\<bar> \<le> R / 2 * (1001/1000)"
    unfolding q1_def by (rule fl_abs_le)
  have "\<bar>13/10 :: rat\<bar> \<le> 13/10" by simp
  then have c: "\<bar>c\<bar> \<le> 13/10 * (1001/1000)"
    unfolding c_def by (rule fl_abs_le)
  have "\<bar>q1 * c\<bar> \<le> (R / 2 * (1001/1000)) * (13/10 * (1001/1000))"
    using q1 c by (rule abs_mult_le)
  then have "\<bar>hi\<bar> \<le> (R / 2 * (1001/1000)) * (13/10 * (1001/1000)) * (1001/1000)"
    unfolding hi_def by (rule fl_abs_le)
  then have hi: "\<bar>hi\<bar> \<le> 66/100 * R" using R0 by (simp add: algebra_simps)
  have "\<bar>hi - 1/2\<bar> \<le> 66/100 * R + 1/2" using hi by linarith
  then have "\<bar>t1\<bar> \<le> (66/100 * R + 1/2) * (1001/1000)"
    unfolding t1_def by (rule fl_abs_le)
  then have t1: "\<bar>t1\<bar> \<le> 662/1000 * R + 501/1000" using R0 by (simp add: algebra_simps)
  have "\<bar>r\<bar> \<le> 1" using r by simp
  then have "\<bar>t1 * r\<bar> \<le> (662/1000 * R + 501/1000) * 1"
    using t1 by (intro abs_mult_le)
  then have "\<bar>t1 * r\<bar> \<le> 662/1000 * R + 501/1000" by simp
  then have "\<bar>t2\<bar> \<le> (662/1000 * R + 501/1000) * (1001/1000)"
    unfolding t2_def by (rule fl_abs_le)
  then have t2: "\<bar>t2\<bar> \<le> 664/1000 * R + 502/1000" using R0 by (simp add: algebra_simps)
  have "\<bar>1/2 + t2\<bar> \<le> 664/1000 * R + 1002/1000" using t2 by linarith
  then have "\<bar>d\<bar> \<le> (664/1000 * R + 1002/1000) * (1001/1000)"
    unfolding d_def by (rule fl_abs_le)
  then have d: "\<bar>d\<bar> \<le> 666/1000 * R + 1004/1000" using R0 by (simp add: algebra_simps)
  have "\<bar>share\<bar> \<le> (666/1000 * R + 1004/1000 + 1/200) * (1001/1000)"
    unfolding share using d by (rule round2_float_abs_le)
  then have s: "\<bar>share\<bar> \<le> 67/100 * R + 102/100" using R0 by (simp add: algebra_simps)
  have diff: "\<bar>remaining - share\<bar> \<le> 167/100 * R + 102/100" using s rem by linarith
  have "\<bar>fl (remaining - share)\<bar> \<le> (167/100 * R + 102/100) * (1001/1000)"
    using diff by (rule fl_abs_le)
  then show "\<bar>fl (remaining - share)\<bar> \<le> 2 * R + 2" using R0 by (simp add: algebra_simps)
  have "\<bar>remaining - share\<bar> \<le> 2 * R + 2" using diff R0 by linarith
  then show "\<bar>fl (remaining - share) - (remaining - share)\<bar> \<le> (2 * R + 2) / 2 ^ 53"
    by (rule fl_drift)
qed

lemma scramble_loop_float_length:
  "scramble_loop_float u n i k shares r = (shares', r') \<Longrightarrow>
   length shares' = length shares + k"
  by (induction k arbitrary: i shares r) (auto simp: Let_def)

lemma scramble_loop_float_drift:
  assumes "\<forall>j. 0 \<le> u j \<and> u j \<le> 1"
    and "n - i = Suc k"
    and "\<bar>remaining\<bar> \<le> R"
    and "scramble_loop_float u n i k shares remaining = (shares', r')"
  shows "\<bar>r'\<bar> \<le> 2 ^ k * R + 2 * (2 ^ k - 1) \<and>
         \<bar>(sum_list shares' + r') - (sum_list shares + remaining)\<bar>
         \<le> ((2 * 2 ^ k - 2) * R + 4 * (2 ^ k - 1) - 2 * of_nat k) / 2 ^ 53"
  using assms(2-)
proof (induction k arbitrary: i shares remaining R)
  case 0
  then show ?case by simp
next
  case (Suc k)
  define share where
    "share = round2_float
       (uniform_float (1/2) (fl (fl (remaining / of_nat (n - i)) * fl (13/10))) (u i))"
  have u: "0 \<le> u i" "u i \<le> 1" using assms(1) by auto
  have m: "2 \<le> n - i" using Suc.prems(1) by simp
  have step: "\<bar>fl (remaining - share)\<bar> \<le> 2 * R + 2"
    "\<bar>fl (remaining - share) - (remaining - share)\<bar> \<le> (2 * R + 2) / 2 ^ 53"
    unfolding share_def by (rule float_share_step [OF u m Suc.prems(2)])+
  have loop: "scramble_loop_float u n (Suc i) k (shares @ [share]) (fl (remaining - share))
              = (shares', r')"
    using Suc.prems(3) by (simp add: Let_def share_def)
  have next_i: "n - Suc i = Suc k" using Suc.prems(1) by simp
  have ih: "\<bar>r'\<bar> \<le> 2 ^ k * (2 * R + 2) + 2 * (2 ^ k - 1)"
    "\<bar>(sum_list shares' + r') - (sum_list (shares @ [share]) + fl (remaining - share))\<bar>
     \<le> ((2 * 2 ^ k - 2) * (2 * R + 2) + 4 * (2 ^ k - 1) - 2 * of_nat k) / 2 ^ 53"
    using Suc.IH [OF next_i step(1) loop] by auto
  have bound: "\<bar>r'\<bar> \<le> 2 ^ Suc k * R + 2 * (2 ^ Suc k - 1)"
    using ih(1) by (simp add: algebra_simps)
  have split: "(sum_list shares' + r') - (sum_list shares + remaining)
      = ((sum_list shares' + r') - (sum_list (shares @ [share]) + fl (remaining - share)))
        + (fl (remaining - share) - (remaining - share))"
    by simp
  have "\<bar>(sum_list shares' + r') - (sum_list shares + remaining)\<bar>
        \<le> ((2 * 2 ^ k - 2) * (2 * R + 2) + 4 * (2 ^ k - 1) - 2 * of_nat k) / 2 ^ 53
          + (2 * R + 2) / 2 ^ 53"
    unfolding split using ih(2) step(2) by linarith
  also have "\<dots> = ((2 * 2 ^ Suc k - 2) * R + 4 * (2 ^ Suc k - 1) - 2 * of_nat (Suc k)) / 2 ^ 53"
    by (simp add: algebra_simps add_divide_distrib [symmetric])
  finally show ?case using bound by blast
qed

lemma scramble_money_float_shares:
  assumes "winners \<noteq> []" and "distinct winners"
  obtains shares r where
    "scramble_loop_float u (length winners) 0 (length winners - 1) [] tot = (shares, r)"
    "scramble_money_float u rb tot winners
     = zip winners (shuffle rb (shares @ [round2_float r]))"
    "length (shares @ [round2_float r]) = length winners"
proof -
  obtain shares r where
    loop: "scramble_loop_float u (length winners) 0 (length winners - 1) [] tot = (shares, r)"
    by (cases "scramble_loop_float u (length winners) 0 (length winners - 1) [] tot")
  have len: "length (shares @ [round2_float r]) = length winners"
    using scramble_loop_float_length [OF loop] assms(1) by (cases winners) auto
  have "scramble_money_float u rb tot winners
        = zip winners (shuffle rb (shares @ [round2_float r]))"
    using assms loop len by (simp add: scramble_money_float_def dict_of_zip)
  then show thesis using loop len that by blast
qed

section \<open>Properties of the string operations\<close>

lemma rsplit_last_None:
  assumes "sep \<noteq> []"
  shows "rsplit_last sep s = None \<longleftrightarrow> (\<nexists>a b. s = a @ sep @ b)"
proof (induction s)
  case Nil
  then show ?case using assms by simp
next
  case (Cons c cs)
  have here: "take (length sep) (c # cs) = sep \<longleftrightarrow> (\<exists>b. c # cs = sep @ b)"
    by (metis append_eq_conv_conj append_take_drop_id)
  have occ: "(\<exists>a b. c # cs = a @ sep @ b) \<longleftrightarrow>
             (\<exists>b. c # cs = sep @ b) \<or> (\<exists>a b. cs = a @ sep @ b)"
  proof
    assume "\<exists>a b. c # cs = a @ sep @ b"
    then obtain a b where ab: "c # cs = a @ sep @ b" by blast
    show "(\<exists>b. c # cs = sep @ b) \<or> (\<exists>a b. cs = a @ sep @ b)"
    proof (cases a)
      case Nil
      then show ?thesis using ab by auto
    next
      case (Cons x a')
      then have "cs = a' @ sep @ b" using ab by simp
      then show ?thesis by blast
    qed
  next
    assume "(\<exists>b. c # cs = sep @ b) \<or> (\<exists>a b. cs = a @ sep @ b)"
    then show "\<exists>a b. c # cs = a @ sep @ b"
    proof
      assume "\<exists>b. c # cs = sep @ b"
      then show ?thesis by (metis append_Nil)
    next
      assume "\<exists>a b. cs = a @ sep @ b"
      then obtain a b where "cs = a @ sep @ b" by blast
      then have "c # cs = (c # a) @ sep @ b" by simp
      then show ?thesis by blast
    qed
  qed
  show ?case
    using Cons.IH here occ by (auto split: option.splits)
qed

lemma rsplit_last_Some:
  assumes "sep \<noteq> []" and "rsplit_last sep s = Some (a, b)"
  shows "s = a @ sep @ b \<and> (\<forall>a' b'. s = a' @ sep @ b' \<longrightarrow> length a' \<le> length a)"
  using assms(2)
proof (induction s arbitrary: a b)
  case Nil
  then show ?case by simp
next
  case (Cons c cs)
  show ?case
  proof (cases "rsplit_last sep cs")
    case None
    then have no: "\<nexists>a b. cs = a @ sep @ b"
      using rsplit_last_None [OF assms(1)] by simp
    from None Cons.prems have a: "a = []" and b: "b = drop (length sep) (c # cs)"
      and t: "take (length sep) (c # cs) = sep"
      by (auto split: if_splits)
    have eq: "c # cs = a @ sep @ b" using a b t by (metis append_Nil append_take_drop_id)
    have "length a' \<le> length a" if "c # cs = a' @ sep @ b'" for a' b'
    proof (cases a')
      case Nil
      then show ?thesis by simp
    next
      case (Cons x xs)
      then have "cs = xs @ sep @ b'" using that by simp
      then show ?thesis using no by blast
    qed
    then show ?thesis using eq by blast
  next
    case (Some p)
    obtain a0 b0 where p: "p = (a0, b0)" by (cases p)
    from Some p Cons.prems have a: "a = c # a0" and b: "b = b0" by auto
    have ih: "cs = a0 @ sep @ b0" "\<forall>a' b'. cs = a' @ sep @ b' \<longrightarrow> length a' \<le> length a0"
      using Cons.IH [of a0 b0] Some p by auto
    have "length a' \<le> length a" if "c # cs = a' @ sep @ b'" for a' b'
    proof (cases a')
      case Nil
      then show ?thesis by simp
    next
      case (Cons x xs)
      then have "cs = xs @ sep @ b'" using that by simp
      then have "length xs \<le> length a0" using ih(2) by blast
      then show ?thesis using Cons a by simp
    qed
    then show ?thesis using ih(1) a b by auto
  qed
qed

lemma last_occurrence_unique:
  assumes "s = a @ sep @ b" and "s = a' @ sep @ b'" and "length a = length a'"
  shows "a = a' \<and> b = b'"
  using assms by (metis append_eq_append_conv same_append_eq)

lemma rsplit_last_eq:
  assumes "sep \<noteq> []" and "s = a @ sep @ b"
    and "\<forall>a' b'. s = a' @ sep @ b' \<longrightarrow> length a' \<le> length a"
  shows "rsplit_last sep s = Some (a, b)"
proof -
  obtain a0 b0 where some: "rsplit_last sep s = Some (a0, b0)"
    using rsplit_last_None [OF assms(1), of s] assms(2) by (cases "rsplit_last sep s") auto
  have s0: "s = a0 @ sep @ b0"
    and max0: "\<forall>a' b'. s = a' @ sep @ b' \<longrightarrow> length a' \<le> length a0"
    using rsplit_last_Some [OF assms(1) some] by auto
  have "length a0 \<le> length a" using assms(3) s0 by blast
  moreover have "length a \<le> length a0" using max0 assms(2) by blast
  ultimately have "length a = length a0" by simp
  then have "a0 = a \<and> b0 = b" using last_occurrence_unique [OF s0 assms(2)] by simp
  then show ?thesis using some by simp
qed

subsection \<open>Trimming and upper case\<close>

lemma of_char_nat_eq:
  "(of_char c :: nat) = of_char d \<longleftrightarrow> c = d"
  by (rule of_char_eq_iff)

lemma upper_char_nonempty: "upper_char c \<noteq> []"
  by (simp add: upper_char_def Let_def)

lemma upper_single:
  "upper t = [n] \<longleftrightarrow> (\<exists>c. t = [c] \<and> upper_char c = [n])"
proof
  assume u: "upper t = [n]"
  show "\<exists>c. t = [c] \<and> upper_char c = [n]"
  proof (cases t)
    case Nil
    then show ?thesis using u by (simp add: upper_def)
  next
    case (Cons c rest)
    then have cat: "upper_char c @ upper rest = [n]" using u by (simp add: upper_def)
    have "rest = []"
    proof (cases rest)
      case Nil
      then show ?thesis .
    next
      case (Cons d more)
      then have "upper_char c @ upper_char d @ upper more = [n]"
        using cat by (simp add: upper_def)
      then have "length (upper_char c) + length (upper_char d) + length (upper more) = 1"
        by (metis length_append add.assoc length_Cons list.size(3) One_nat_def)
      moreover have "0 < length (upper_char c)" "0 < length (upper_char d)"
        using upper_char_nonempty by auto
      ultimately show ?thesis by linarith
    qed
    then show ?thesis using Cons cat by (simp add: upper_def)
  qed
next
  assume "\<exists>c. t = [c] \<and> upper_char c = [n]"
  then show "upper t = [n]" by (auto simp: upper_def)
qed

lemma upper_char_letter:
  assumes "k \<in> set ''ABCD''"
  shows "upper_char c = [of_char k] \<longleftrightarrow> same_letter_ignoring_case c k"
proof -
  have codes: "(of_char CHR ''A'' :: nat) = 65" "(of_char CHR ''B'' :: nat) = 66"
    "(of_char CHR ''C'' :: nat) = 67" "(of_char CHR ''D'' :: nat) = 68"
    "(of_char CHR ''a'' :: nat) = 97" "(of_char CHR ''b'' :: nat) = 98"
    "(of_char CHR ''c'' :: nat) = 99" "(of_char CHR ''d'' :: nat) = 100"
    by simp_all
  have up: "upper_char c = [m] \<longleftrightarrow> (of_char c :: nat) = m \<or> (of_char c :: nat) = m + 32"
    if "65 \<le> m" "m \<le> 68" for m
    using that by (auto simp: upper_char_def Let_def)
  have same: "same_letter_ignoring_case c k \<longleftrightarrow>
      (k = CHR ''A'' \<and> (c = CHR ''A'' \<or> c = CHR ''a'')) \<or>
      (k = CHR ''B'' \<and> (c = CHR ''B'' \<or> c = CHR ''b'')) \<or>
      (k = CHR ''C'' \<and> (c = CHR ''C'' \<or> c = CHR ''c'')) \<or>
      (k = CHR ''D'' \<and> (c = CHR ''D'' \<or> c = CHR ''d''))"
    using assms by (auto simp: same_letter_ignoring_case_def)
  have chars: "(of_char c :: nat) = 65 \<longleftrightarrow> c = CHR ''A''" "(of_char c :: nat) = 66 \<longleftrightarrow> c = CHR ''B''"
    "(of_char c :: nat) = 67 \<longleftrightarrow> c = CHR ''C''" "(of_char c :: nat) = 68 \<longleftrightarrow> c = CHR ''D''"
    "(of_char c :: nat) = 97 \<longleftrightarrow> c = CHR ''a''" "(of_char c :: nat) = 98 \<longleftrightarrow> c = CHR ''b''"
    "(of_char c :: nat) = 99 \<longleftrightarrow> c = CHR ''c''" "(of_char c :: nat) = 100 \<longleftrightarrow> c = CHR ''d''"
    using of_char_nat_eq [of c] codes by metis+
  from assms consider "k = CHR ''A''" | "k = CHR ''B''" | "k = CHR ''C''" | "k = CHR ''D''"
    by auto
  then show ?thesis
  proof cases
    case 1
    then show ?thesis using up [of 65] chars same codes by auto
  next
    case 2
    then show ?thesis using up [of 66] chars same codes by auto
  next
    case 3
    then show ?thesis using up [of 67] chars same codes by auto
  next
    case 4
    then show ?thesis using up [of 68] chars same codes by auto
  qed
qed

lemma strip_single:
  assumes "\<not> isspace c"
  shows "strip s = [c] \<longleftrightarrow>
         (\<exists>pre post. s = pre @ [c] @ post \<and> list_all isspace pre \<and> list_all isspace post)"
proof
  assume st: "strip s = [c]"
  define d where "d = dropWhile isspace s"
  have "rev (dropWhile isspace (rev d)) = [c]" using st by (simp add: strip_def d_def)
  then have "dropWhile isspace (rev d) = [c]" by (metis rev_rev_ident rev_singleton_conv)
  then have "rev d = takeWhile isspace (rev d) @ [c]"
    by (metis takeWhile_dropWhile_id)
  then have "d = [c] @ rev (takeWhile isspace (rev d))"
    by (metis rev_append rev_rev_ident rev_singleton_conv)
  then have "s = takeWhile isspace s @ [c] @ rev (takeWhile isspace (rev d))"
    unfolding d_def by (metis takeWhile_dropWhile_id)
  moreover have "list_all isspace (takeWhile isspace s)"
    by (auto simp: list_all_iff dest: set_takeWhileD)
  moreover have "list_all isspace (rev (takeWhile isspace (rev d)))"
    by (auto simp: list_all_iff dest: set_takeWhileD)
  ultimately show "\<exists>pre post. s = pre @ [c] @ post \<and> list_all isspace pre \<and> list_all isspace post"
    by blast
next
  assume "\<exists>pre post. s = pre @ [c] @ post \<and> list_all isspace pre \<and> list_all isspace post"
  then obtain pre post where s: "s = pre @ [c] @ post"
    and pre: "list_all isspace pre" and post: "list_all isspace post" by blast
  have "dropWhile isspace s = c # post"
    using pre assms by (simp add: s list_all_iff dropWhile_append2)
  moreover have "dropWhile isspace (rev post @ [c]) = dropWhile isspace [c]"
    by (rule dropWhile_append2) (use post in \<open>simp add: list_all_iff\<close>)
  moreover have "dropWhile isspace [c] = [c]" using assms by simp
  ultimately show "strip s = [c]" by (simp add: strip_def)
qed

lemma letter_not_space:
  assumes "k \<in> set ''ABCD''" and "same_letter_ignoring_case c k"
  shows "\<not> isspace c"
  using assms by (auto simp: same_letter_ignoring_case_def isspace_def whitespace_def)

lemma answer_correct_letter:
  assumes "k \<in> set ''ABCD''"
  shows "answer_correct user_input [k] \<longleftrightarrow>
         (\<exists>pre c post. user_input = pre @ [c] @ post \<and> list_all isspace pre \<and>
            list_all isspace post \<and> same_letter_ignoring_case c k)"
proof -
  have "answer_correct user_input [k] \<longleftrightarrow>
        (\<exists>c. strip user_input = [c] \<and> same_letter_ignoring_case c k)"
    by (simp add: answer_correct_def code_points_def upper_single upper_char_letter [OF assms])
  also have "\<dots> \<longleftrightarrow> (\<exists>c. same_letter_ignoring_case c k \<and>
        (\<exists>pre post. user_input = pre @ [c] @ post \<and> list_all isspace pre \<and> list_all isspace post))"
    using strip_single [OF letter_not_space [OF assms]] by blast
  finally show ?thesis by blast
qed

section \<open>Properties of the game engine\<close>

lemma family_round_winners:
  assumes "family_round rb key k ms ws fd = (ws', fd')"
    and "distinct ms" and "distinct ws" and "set ws \<inter> set ms = {}"
  shows "distinct ws' \<and> length ws' \<le> length ws + length ms \<and> set ws' \<subseteq> set ws \<union> set ms"
  using assms
proof (induction ms arbitrary: k ws fd)
  case Nil
  then show ?case by simp
next
  case (Cons m ms)
  define ws1 where "ws1 = (if choice rb k letters = key then ws @ [m] else ws)"
  define fd1 where
    "fd1 = AList.update m \<lparr>guess = choice rb k letters, correct = (choice rb k letters = key),
                            gain = 0\<rparr> fd"
  have rec: "family_round rb key (Suc k) ms ws1 fd1 = (ws', fd')"
    using Cons.prems(1) by (simp add: Let_def ws1_def fd1_def)
  have d1: "distinct ws1" and i1: "set ws1 \<inter> set ms = {}"
    and l1: "length ws1 \<le> length ws + 1" and s1: "set ws1 \<subseteq> set ws \<union> {m}"
    using Cons.prems(2-4) by (auto simp: ws1_def)
  have "distinct ws' \<and> length ws' \<le> length ws1 + length ms \<and> set ws' \<subseteq> set ws1 \<union> set ms"
    using Cons.IH [OF rec _ d1 i1] Cons.prems(2) by simp
  then show ?case using l1 s1 by auto
qed

lemma round2_hundredths: "round2 (of_int n / 100) = of_int n / 100"
  by (simp add: round2_def)

lemma pot_at_least:
  assumes "0 \<le> r" and "r \<le> 1"
  shows "888/100 \<le> round2 (uniform (888/100) (3888/100) r)"
proof -
  have "min (888/100) (3888/100) \<le> uniform (888/100) (3888/100) r"
    using uniform_between(1) [OF assms] .
  then have "round2 (of_int 888 / 100) \<le> round2 (uniform (888/100) (3888/100) r)"
    by (intro round2_mono) simp
  then show ?thesis by (simp only: round2_hundredths)
qed

lemma dict_get_nonneg:
  "\<forall>(k, v) \<in> set d. (0::rat) \<le> v \<Longrightarrow> 0 \<le> dict_get d k 0"
  by (auto simp: dict_get_def split: option.splits dest: map_of_SomeD)

lemma scramble_money_keys:
  "distinct winners \<Longrightarrow> fst ` set (scramble_money u rb p winners) \<subseteq> set winners"
proof (cases "winners = []")
  case True
  then show ?thesis by (simp add: scramble_money_def)
next
  case False
  assume "distinct winners"
  then obtain shares r where
    "scramble_money u rb p winners = zip winners (shuffle rb (shares @ [round2 r]))"
    using scramble_money_shares [OF False] by blast
  then show ?thesis by (auto dest: set_zip_leftD)
qed

lemma dict_get_absent:
  "k \<notin> fst ` set d \<Longrightarrow> dict_get d k dflt = dflt"
  by (simp add: dict_get_def map_of_eq_None_iff [THEN iffD2])

lemma submit_answer_effect:
  assumes w: "\<forall>j. 0 \<le> rand_unit w j \<and> rand_unit w j \<le> 1"
  shows "\<exists>v. display (submit_answer user_input st w) = Judged v
            \<and> user_correct v = answer_correct user_input (secret_key st)
            \<and> balance (state_after (submit_answer user_input st w)) = balance st + user_gain v
            \<and> 0 \<le> user_gain v
            \<and> (\<not> user_correct v \<longrightarrow> user_gain v = 0)"
proof -
  define ws0 where "ws0 = (if answer_correct user_input (secret_key st) then [''You''] else [])"
  obtain winners fd where
    fr: "family_round (rand_below w) (secret_key st) 0 family_members_list ws0 [] = (winners, fd)"
    by (cases "family_round (rand_below w) (secret_key st) 0 family_members_list ws0 []")
  define pot where "pot = round2 (uniform (888/100) (3888/100) (rand_unit w 0))"
  define payouts where
    "payouts = scramble_money (\<lambda>k. rand_unit w (Suc k)) (\<lambda>k. rand_below w (3 + k)) pot winners"
  define v where
    "v = \<lparr>user_correct = answer_correct user_input (secret_key st),
          user_gain = dict_get payouts ''You'' 0,
          family_results = map (\<lambda>(name, d). (name, d\<lparr>gain := dict_get payouts name 0\<rparr>)) fd,
          secret_shown = secret_key st,
          total_wealth = balance st + dict_get payouts ''You'' 0\<rparr>"
  have ws0: "distinct ws0" "set ws0 \<inter> set family_members_list = {}" "length ws0 \<le> 1"
    and fam: "distinct family_members_list" "length family_members_list = 3"
    by (auto simp: ws0_def family_members_list_def)
  have win: "distinct winners" "length winners \<le> 4"
    "set winners \<subseteq> set ws0 \<union> set family_members_list"
    using family_round_winners [OF fr fam(1) ws0(1,2)] ws0(3) fam(2) by auto
  have pot: "888/100 \<le> pot"
    unfolding pot_def using w by (intro pot_at_least) auto
  have "rat_of_nat (length winners - 1) / 2 \<le> 3/2"
    using win(2) by simp
  then have enough: "rat_of_nat (length winners - 1) / 2 \<le> pot"
    using pot by linarith
  have units: "\<forall>j. 0 \<le> rand_unit w (Suc j) \<and> rand_unit w (Suc j) \<le> 1"
    using w by blast
  have nonneg: "\<forall>(name, share) \<in> set payouts. 0 \<le> share"
    unfolding payouts_def
    by (rule scramble_money_nonneg_shares [OF units win(1,2) enough])
  have run: "submit_answer user_input st w =
      \<lparr>state_after = st\<lparr>balance := balance st + dict_get payouts ''You'' 0, status := IDLE,
                          chat_history := chat_history st @ [chat_reply w]\<rparr>,
       requests = [Reactions (''Correct answer: '' @ secret_key st @ ''. ''
                              @ str_nat (length winners) @ '' people won.'')],
       display = Judged v\<rparr>"
    unfolding submit_answer_def ws0_def [symmetric] Let_def fr prod.case
      pot_def [symmetric] payouts_def [symmetric] v_def
    by simp
  have disp: "display (submit_answer user_input st w) = Judged v"
    by (simp add: run)
  have bal: "balance (state_after (submit_answer user_input st w)) = balance st + user_gain v"
    by (simp add: run v_def)
  have ge: "0 \<le> user_gain v"
    using dict_get_nonneg [OF nonneg] by (simp add: v_def)
  have zero: "user_gain v = 0" if "\<not> user_correct v"
  proof -
    have "ws0 = []" using that by (simp add: v_def ws0_def)
    then have "''You'' \<notin> set winners"
      using win(3) by (auto simp: family_members_list_def)
    then have "''You'' \<notin> fst ` set payouts"
      using scramble_money_keys [OF win(1)] unfolding payouts_def by blast
    then show ?thesis by (simp add: v_def dict_get_absent)
  qed
  have "user_correct v = answer_correct user_input (secret_key st)"
    by (simp add: v_def)
  then show ?thesis using disp bal ge zero by blast
qed

lemma start_round_balance: "balance (state_after (start_round region st w)) = balance st"
  by (simp add: start_round_def Let_def)

lemma play_append:
  "play state (calls @ [(user_input, region, w)])
   = Some (state_after (game_logic user_input region (play state calls) w))"
  by (induction calls arbitrary: state) auto

lemma game_logic_balance_nondecreasing:
  assumes "\<forall>j. 0 \<le> rand_unit w j \<and> rand_unit w j \<le> 1"
  shows "balance (session_of state)
         \<le> balance (state_after (game_logic user_input region state w))"
proof (cases "status (session_of state)")
  case IDLE
  then show ?thesis by (simp add: game_logic_def start_round_balance)
next
  case WAITING
  obtain v :: verdict where
    "balance (state_after (submit_answer user_input (session_of state) w))
     = balance (session_of state) + user_gain v" "0 \<le> user_gain v"
    using submit_answer_effect [OF assms, of user_input "session_of state"] by blast
  then show ?thesis using WAITING by (simp add: game_logic_def)
qed

lemma play_balance_nonneg:
  assumes "\<forall>(user_input, region, w) \<in> set calls. \<forall>j. 0 \<le> rand_unit w j \<and> rand_unit w j \<le> 1"
  shows "0 \<le> balance (session_of (play None calls))"
  using assms
proof (induction calls rule: rev_induct)
  case Nil
  then show ?case by (simp add: session_of_def initial_state_def)
next
  case (snoc c calls)
  obtain user_input region w where c: "c = (user_input, region, w)" by (cases c)
  have w: "\<forall>j. 0 \<le> rand_unit w j \<and> rand_unit w j \<le> 1" using snoc.prems c by auto
  have "0 \<le> balance (session_of (play None calls))" using snoc by auto
  also have "\<dots> \<le> balance (state_after (game_logic user_input region (play None calls) w))"
    by (rule game_logic_balance_nondecreasing [OF w])
  finally show ?case by (simp add: c play_append session_of_def)
qed

section \<open>Claims about the allocator\<close>

lemma draws_of_unit:
  "\<forall>x \<in> set xs. 0 \<le> x \<and> x \<le> 1 \<Longrightarrow> 0 \<le> draws_of xs k \<and> draws_of xs k \<le> 1"
  by (simp add: draws_of_def)

text \<open>
  Claim C1, as stated: for every pot \<open>p > 0\<close> and every list of one to four distinct
  winners, the values of the mapping returned by \<^verbatim>\<open>scramble_money(p, winners)\<close> sum to
  \<^verbatim>\<open>round(p, 2)\<close> within a tolerance of 0.01. The remainder is kept by float subtractions,
  whose rounding error grows with the pot. With the pot \<open>10\<^sup>1\<^sup>5\<close>, three winners and the
  draws 0.375 and 0.125 the shares are 162500000000000.3125, 68046875000000.421875 and
  769453124999999.375, and their sum misses the pot by 0.109375. With the pot 8.125, two
  winners and the draw 0.0625 the shares are the doubles nearest to 0.8 and 7.33 and
  \<^verbatim>\<open>round(p, 2)\<close> is the double nearest to 8.12: the sum misses it by a little more than
  0.01.
\<close>

theorem float_sum_drifts:
  "\<not> \<bar>sum_list (dict_values (scramble_money_float (draws_of [3/8, 1/8]) (picks_of [])
            1000000000000000 [''You'', ''Xiao Ming'', ''Uncle Chen'']))
       - round2_float 1000000000000000\<bar> \<le> 1/100 \<and>
   \<not> \<bar>sum_list (dict_values (scramble_money_float (draws_of [1/16]) (picks_of [])
            (65/8) [''You'', ''Xiao Ming'']))
       - round2_float (65/8)\<bar> \<le> 1/100"
proof -
  have "scramble_money_float (draws_of [3/8, 1/8]) (picks_of [])
          1000000000000000 [''You'', ''Xiao Ming'', ''Uncle Chen'']
        = [(''You'', 4355000000000027 / 64), (''Xiao Ming'', 6155624999999995 / 8),
           (''Uncle Chen'', 2600000000000005 / 16)]"
    by code_simp
  moreover have "round2_float 1000000000000000 = 1000000000000000"
    by code_simp
  moreover have "scramble_money_float (draws_of [1/16]) (picks_of []) (65/8)
          [''You'', ''Xiao Ming'']
        = [(''You'', 4126423158578217 / 562949953421312),
           (''Xiao Ming'', 3602879701896397 / 4503599627370496)]"
    by code_simp
  moreover have "round2_float (65/8) = 4571153621781053 / 562949953421312"
    by code_simp
  ultimately show ?thesis by (simp add: dict_values_def)
qed

text \<open>
  Claim C1, amended. For every pot \<open>p > 0\<close>, every list of one to four distinct winners
  and draws of \<^verbatim>\<open>random.random()\<close> in the unit interval, the values of the mapping returned
  by \<^verbatim>\<open>scramble_money(p, winners)\<close>, added up as exact numbers, sum to \<^verbatim>\<open>round(p, 2)\<close>
  within \<open>0.01 + (p + 2) / 2\<^sup>4\<^sup>8\<close>: a cent for the two decimal roundings and the drift of
  the float operations, which is below \<open>4 \<cdot> 10\<^sup>-\<^sup>9\<close> for pots up to a million.
\<close>

theorem float_sum_within_cent_and_drift:
  assumes "0 < p" and "winners \<noteq> []" and "distinct winners" and "length winners \<le> 4"
    and "\<forall>j. 0 \<le> u j \<and> u j \<le> 1"
  shows "\<bar>sum_list (dict_values (scramble_money_float u rb p winners)) - round2_float p\<bar>
         \<le> 1/100 + (p + 2) / 2 ^ 48"
proof -
  define k where "k = length winners - 1"
  obtain shares r where
    loop: "scramble_loop_float u (length winners) 0 k [] p = (shares, r)" and
    res: "scramble_money_float u rb p winners
          = zip winners (shuffle rb (shares @ [round2_float r]))" and
    len: "length (shares @ [round2_float r]) = length winners"
    using scramble_money_float_shares [OF assms(2,3)] unfolding k_def by blast
  have "dict_values (scramble_money_float u rb p winners)
        = shuffle rb (shares @ [round2_float r])"
    using len by (simp add: res dict_values_def)
  then have total: "sum_list (dict_values (scramble_money_float u rb p winners))
                    = sum_list shares + round2_float r"
    by (simp add: sum_list_shuffle)
  have n: "length winners - 0 = Suc k" using assms(2) by (cases winners) (auto simp: k_def)
  have p: "\<bar>p\<bar> \<le> p" using assms(1) by simp
  have inv: "\<bar>r\<bar> \<le> 2 ^ k * p + 2 * (2 ^ k - 1)"
    "\<bar>(sum_list shares + r) - (sum_list [] + p)\<bar>
     \<le> ((2 * 2 ^ k - 2) * p + 4 * (2 ^ k - 1) - 2 * of_nat k) / 2 ^ 53"
    using scramble_loop_float_drift [OF assms(5) n p loop] by auto
  have "k = 0 \<or> k = 1 \<or> k = 2 \<or> k = 3" using assms(4) by (auto simp: k_def)
  then have r: "\<bar>r\<bar> \<le> 8 * p + 14"
    and drift: "\<bar>(sum_list shares + r) - p\<bar> \<le> (14 * p + 22) / 2 ^ 53"
    using inv assms(1) by (auto simp: divide_right_mono)
  have last: "\<bar>round2_float r - r\<bar> \<le> 1/200 + (8 * p + 14 + 1/200) / 2 ^ 53"
    using r by (rule round2_float_error)
  have pot: "\<bar>round2_float p - p\<bar> \<le> 1/200 + (p + 1/200) / 2 ^ 53"
    using p by (rule round2_float_error)
  have "\<bar>sum_list shares + round2_float r - round2_float p\<bar>
        \<le> 1/100 + ((8 * p + 14 + 1/200) + (14 * p + 22) + (p + 1/200)) / 2 ^ 53"
    using last pot drift by (simp add: add_divide_distrib)
  also have "\<dots> \<le> 1/100 + (32 * p + 64) / 2 ^ 53"
    using assms(1) by (simp add: divide_right_mono)
  also have "\<dots> = 1/100 + (p + 2) / 2 ^ 48" by simp
  finally show ?thesis by (simp only: total)
qed

theorem float_sum_within_cent_and_drift_witness:
  "(0::rat) < 20 \<and> [''You'', ''Xiao Ming'', ''Uncle Chen''] \<noteq> [] \<and>
   distinct [''You'', ''Xiao Ming'', ''Uncle Chen''] \<and>
   length [''You'', ''Xiao Ming'', ''Uncle Chen''] \<le> 4 \<and>
   (\<forall>j. 0 \<le> draws_of [1/4, 1/2] j \<and> draws_of [1/4, 1/2] j \<le> 1) \<and>
   \<bar>sum_list (dict_values (scramble_money_float (draws_of [1/4, 1/2]) (picks_of [1, 0]) 20
         [''You'', ''Xiao Ming'', ''Uncle Chen''])) - round2_float 20\<bar>
   \<le> 1/100 + (20 + 2) / 2 ^ 48"
proof -
  have u: "\<forall>j. 0 \<le> draws_of [1/4, 1/2] j \<and> draws_of [1/4, 1/2] j \<le> 1"
    by (intro allI draws_of_unit) simp
  have w: "[''You'', ''Xiao Ming'', ''Uncle Chen''] \<noteq> []"
    "distinct [''You'', ''Xiao Ming'', ''Uncle Chen'']"
    "length [''You'', ''Xiao Ming'', ''Uncle Chen''] \<le> 4"
    by simp_all
  have p: "(0::rat) < 20" by simp
  show ?thesis
    using float_sum_within_cent_and_drift [OF p w u, of "picks_of [1, 0]"] u w p by blast
qed

text \<open>
  Claim C2, as stated: for every pot \<open>p > 0\<close> and every list of distinct winners, every
  share returned by \<^verbatim>\<open>scramble_money(p, winners)\<close> is at least 0, a negative remainder being
  clamped to zero. The source has no clamp: with a pot of 0.40, two winners and the draw
  \<^verbatim>\<open>random.random() = 0.25\<close>, the first share is 0.44 and the remainder \<open>-0.04\<close> is
  handed out as it is.
\<close>

theorem scramble_money_negative_share:
  "\<not> (\<forall>(name, share) \<in> set (scramble_money (draws_of [1/4]) (picks_of [0]) (2/5)
                                  [''You'', ''Xiao Ming'']). 0 \<le> share)"
proof -
  have "scramble_money (draws_of [1/4]) (picks_of [0]) (2/5) [''You'', ''Xiao Ming'']
        = [(''You'', - (1/25)), (''Xiao Ming'', 11/25)]"
    by code_simp
  then show ?thesis by simp
qed

text \<open>
  Claim C2, amended. For at most four distinct winners and a pot of at least half a unit
  for each winner but one (\<open>p \<ge> (n - 1) / 2\<close> for \<open>n\<close> winners; the game draws its pots
  from 8.88 upwards), and draws of \<^verbatim>\<open>random.random()\<close> in the unit interval, every share in
  the mapping returned by \<^verbatim>\<open>scramble_money(p, winners)\<close> is at least 0. Nothing is clamped:
  the last share is the rounded remainder.
\<close>

theorem shares_nonneg_when_pot_suffices:
  assumes "\<forall>j. 0 \<le> u j \<and> u j \<le> 1"
    and "distinct winners" and "length winners \<le> 4"
    and "of_nat (length winners - 1) / 2 \<le> p"
  shows "\<forall>(name, share) \<in> set (scramble_money u rb p winners). 0 \<le> share"
  using assms by (rule scramble_money_nonneg_shares)

theorem shares_nonneg_when_pot_suffices_witness:
  "(\<forall>j. 0 \<le> draws_of [1/4, 1/2] j \<and> draws_of [1/4, 1/2] j \<le> 1) \<and>
   distinct [''You'', ''Xiao Ming'', ''Uncle Chen''] \<and>
   length [''You'', ''Xiao Ming'', ''Uncle Chen''] \<le> 4 \<and>
   of_nat (length [''You'', ''Xiao Ming'', ''Uncle Chen''] - 1) / 2 \<le> (20::rat) \<and>
   list_all (\<lambda>(name, share). 0 \<le> share)
     (scramble_money (draws_of [1/4, 1/2]) (picks_of [1, 0]) 20
        [''You'', ''Xiao Ming'', ''Uncle Chen''])"
proof -
  have u: "\<forall>j. 0 \<le> draws_of [1/4, 1/2] j \<and> draws_of [1/4, 1/2] j \<le> 1"
    by (intro allI draws_of_unit) simp
  have w: "distinct [''You'', ''Xiao Ming'', ''Uncle Chen'']"
    "length [''You'', ''Xiao Ming'', ''Uncle Chen''] \<le> 4"
    "of_nat (length [''You'', ''Xiao Ming'', ''Uncle Chen''] - 1) / 2 \<le> (20::rat)"
    by simp_all
  show ?thesis
    using shares_nonneg_when_pot_suffices [OF u w, of "picks_of [1, 0]"] u w
    by (simp only: list_all_iff) blast
qed

text \<open>
  Claim C3. For every pot (in particular every \<open>p > 0\<close>), \<^verbatim>\<open>scramble_money(p, [])\<close> returns
  the empty mapping; the model has no error value because this path of the source raises
  nothing.
\<close>

theorem scramble_money_no_winners: "scramble_money u rb p [] = []"
  by (simp add: scramble_money_def)

text \<open>
  Claim C4. For every pot and every single winner \<open>w\<close>, \<^verbatim>\<open>scramble_money(p, [w])\<close> returns
  exactly \<^verbatim>\<open>{w: round(p, 2)}\<close>: the sole winner receives the entire pot.
\<close>

theorem scramble_money_single_winner: "scramble_money u rb p [w] = [(w, round2 p)]"
  by (simp add: scramble_money_def shuffle_def dict_of_def)

subsection \<open>The two branches of the game engine\<close>

lemma game_logic_IDLE:
  "status (session_of state) = IDLE \<Longrightarrow>
   game_logic user_input region state w = start_round region (session_of state) w"
  by (simp add: game_logic_def)

lemma game_logic_WAITING:
  "status (session_of state) = WAITING \<Longrightarrow>
   game_logic user_input region state w = submit_answer user_input (session_of state) w"
  by (simp add: game_logic_def)

lemma submit_answer_frame:
  "status (state_after (submit_answer user_input st w)) = IDLE"
  "secret_key (state_after (submit_answer user_input st w)) = secret_key st"
  "chat_history (state_after (submit_answer user_input st w)) = chat_history st @ [chat_reply w]"
  by (simp_all add: submit_answer_def Let_def split: prod.splits)

lemma submit_answer_requests:
  "Challenge r \<notin> set (requests (submit_answer user_input st w))"
  by (simp add: submit_answer_def Let_def split: prod.splits)

lemma submit_answer_judged:
  "judged_correct (submit_answer user_input st w)
   = Some (answer_correct user_input (secret_key st))"
  by (simp add: submit_answer_def judged_correct_def Let_def split: prod.splits)

lemma start_round_secret_key:
  "secret_key (state_after (start_round region st w))
   = (case rsplit_last ''|||'' (challenge_reply w) of None \<Rightarrow> ''A'' | Some (a, b) \<Rightarrow> strip b)"
  by (simp add: start_round_def rsplit1_def Let_def split: option.splits)

lemma start_round_display:
  "display (start_round region st w)
   = Asked (replace_char (CHR 0x0A) ''<br>''
       (strip (case rsplit_last ''|||'' (challenge_reply w) of
                 None \<Rightarrow> challenge_reply w | Some (a, b) \<Rightarrow> a)))"
  by (simp add: start_round_def rsplit1_def Let_def split: option.splits)

lemma start_round_frame:
  "status (state_after (start_round region st w)) = WAITING"
  "chat_history (state_after (start_round region st w)) = chat_history st @ [chat_reply w]"
  "Challenge region \<in> set (requests (start_round region st w))"
  by (simp_all add: start_round_def Let_def)

lemma sample_world_unit:
  "\<forall>j. 0 \<le> rand_unit sample_world j \<and> rand_unit sample_world j \<le> 1"
  by (intro allI) (simp add: sample_world_def draws_of_unit)

subsection \<open>Claims about the game engine\<close>

text \<open>
  Claim C5. For every stored secret letter of the alphabet \<^verbatim>\<open>A\<close> to \<^verbatim>\<open>D\<close> and every input
  string, answer evaluation in the submit branch yields a verdict, and the user is judged
  correct exactly when the input is the secret letter in either case with nothing but
  white space around it; every other input (empty, unknown, malformed) is judged
  incorrect. In particular \<^verbatim>\<open>b\<close> and \<^verbatim>\<open>B\<close> are judged alike when the secret is \<^verbatim>\<open>B\<close>.
\<close>

theorem answer_evaluation_trims_and_ignores_case:
  assumes "status (session_of state) = WAITING"
    and "secret_key (session_of state) = [k]" and "[k] \<in> set letters"
  shows "judged_correct (game_logic user_input region state w)
         = Some (\<exists>pre c post. user_input = pre @ [c] @ post \<and> list_all isspace pre \<and>
                   list_all isspace post \<and> same_letter_ignoring_case c k)"
proof -
  have k: "k \<in> set ''ABCD''" using assms(3) by (auto simp: letters_def)
  show ?thesis
    using assms(1,2)
    by (simp add: game_logic_WAITING submit_answer_judged answer_correct_letter [OF k])
qed

theorem answer_evaluation_trims_and_ignores_case_witness:
  "status (session_of (Some waiting_state)) = WAITING \<and>
   secret_key (session_of (Some waiting_state)) = [CHR ''B''] \<and>
   [CHR ''B''] \<in> set letters \<and>
   judged_correct (game_logic ''b'' ''Korea'' (Some waiting_state) sample_world) = Some True \<and>
   judged_correct (game_logic '' B '' ''Korea'' (Some waiting_state) sample_world) = Some True \<and>
   judged_correct (game_logic ''C'' ''Korea'' (Some waiting_state) sample_world) = Some False"
proof -
  have s: "status (session_of (Some waiting_state)) = WAITING"
    and key: "secret_key (session_of (Some waiting_state)) = [CHR ''B'']"
    by (simp_all add: session_of_def waiting_state_def)
  have l: "[CHR ''B''] \<in> set letters" by (simp add: letters_def)
  have b: "\<exists>pre c post. ''b'' = pre @ [c] @ post \<and> list_all isspace pre \<and>
             list_all isspace post \<and> same_letter_ignoring_case c CHR ''B''"
    by (rule exI [of _ "[]"], rule exI [of _ "CHR ''b''"], rule exI [of _ "[]"])
      (simp add: same_letter_ignoring_case_def)
  have B: "\<exists>pre c post. '' B '' = pre @ [c] @ post \<and> list_all isspace pre \<and>
             list_all isspace post \<and> same_letter_ignoring_case c CHR ''B''"
    by (rule exI [of _ "'' ''"], rule exI [of _ "CHR ''B''"], rule exI [of _ "'' ''"])
      (simp add: same_letter_ignoring_case_def isspace_def whitespace_def)
  have C: "\<not> (\<exists>pre c post. ''C'' = pre @ [c] @ post \<and> list_all isspace pre \<and>
             list_all isspace post \<and> same_letter_ignoring_case c CHR ''B'')"
  proof -
    have "\<not> answer_correct ''C'' [CHR ''B'']" by code_simp
    then show ?thesis using answer_correct_letter [of "CHR ''B''" "''C''"] by simp
  qed
  show ?thesis
    using answer_evaluation_trims_and_ignores_case [OF s key l, of "''b''" "''Korea''" sample_world]
      answer_evaluation_trims_and_ignores_case [OF s key l, of "'' B ''" "''Korea''" sample_world]
      answer_evaluation_trims_and_ignores_case [OF s key l, of "''C''" "''Korea''" sample_world]
      s key l b B C
    by simp
qed

text \<open>
  Claim C6. For every raw question text that does not contain the delimiter \<^verbatim>\<open>|||\<close>, the
  start-round step stores the fixed fallback letter \<^verbatim>\<open>A\<close> as the secret, whatever the text
  and the rest of the call, and the round goes on to await the answer.
\<close>

theorem fallback_letter:
  assumes "status (session_of state) = IDLE"
    and "\<nexists>a b. challenge_reply w = a @ ''|||'' @ b"
  shows "secret_key (state_after (game_logic user_input region state w)) = ''A'' \<and>
         status (state_after (game_logic user_input region state w)) = WAITING"
proof -
  have "rsplit_last ''|||'' (challenge_reply w) = None"
    using assms(2) rsplit_last_None [of "''|||''" "challenge_reply w"] by simp
  then show ?thesis
    using assms(1) by (simp add: game_logic_IDLE start_round_secret_key start_round_frame)
qed

theorem fallback_letter_witness:
  "status (session_of None) = IDLE \<and>
   (\<nexists>a b. challenge_reply no_delimiter_world = a @ ''|||'' @ b) \<and>
   secret_key (state_after (game_logic [] ''Korea'' None no_delimiter_world)) = ''A'' \<and>
   status (state_after (game_logic [] ''Korea'' None no_delimiter_world)) = WAITING"
proof -
  have s: "status (session_of None) = IDLE"
    by (simp add: session_of_def initial_state_def)
  have "rsplit_last ''|||'' (challenge_reply no_delimiter_world) = None"
    by code_simp
  then have d: "\<nexists>a b. challenge_reply no_delimiter_world = a @ ''|||'' @ b"
    using rsplit_last_None [of "''|||''" "challenge_reply no_delimiter_world"] by simp
  show ?thesis
    using fallback_letter [OF s d, of "[]" "''Korea''"] s d by blast
qed

text \<open>
  Claim C7. Along every sequence of calls of \<^verbatim>\<open>game_logic\<close> that starts from a session with
  no state yet (balance 0), with draws of \<^verbatim>\<open>random.random()\<close> in the unit interval, the
  balance is never negative and no call decreases it: a call that asks a question leaves
  the balance as it is, and a call that judges an answer adds the user's payout, which is
  at least 0, and is 0 when the user is not a winner.
\<close>

theorem balance_never_decreases:
  assumes "\<forall>(i, r, x) \<in> set (calls @ [(user_input, region, w)]).
             \<forall>j. 0 \<le> rand_unit x j \<and> rand_unit x j \<le> 1"
  shows "0 \<le> balance (session_of (play None calls)) \<and>
         balance (session_of (play None calls))
         \<le> balance (state_after (game_logic user_input region (play None calls) w)) \<and>
         (case display (game_logic user_input region (play None calls) w) of
            Asked q \<Rightarrow>
              balance (state_after (game_logic user_input region (play None calls) w))
              = balance (session_of (play None calls))
          | Judged v \<Rightarrow>
              balance (state_after (game_logic user_input region (play None calls) w))
              = balance (session_of (play None calls)) + user_gain v
              \<and> 0 \<le> user_gain v \<and> (\<not> user_correct v \<longrightarrow> user_gain v = 0))"
proof -
  have calls: "\<forall>(i, r, x) \<in> set calls. \<forall>j. 0 \<le> rand_unit x j \<and> rand_unit x j \<le> 1"
    and w: "\<forall>j. 0 \<le> rand_unit w j \<and> rand_unit w j \<le> 1"
    using assms by auto
  have nonneg: "0 \<le> balance (session_of (play None calls))"
    by (rule play_balance_nonneg [OF calls])
  have mono: "balance (session_of (play None calls))
              \<le> balance (state_after (game_logic user_input region (play None calls) w))"
    by (rule game_logic_balance_nondecreasing [OF w])
  have step: "case display (game_logic user_input region (play None calls) w) of
            Asked q \<Rightarrow>
              balance (state_after (game_logic user_input region (play None calls) w))
              = balance (session_of (play None calls))
          | Judged v \<Rightarrow>
              balance (state_after (game_logic user_input region (play None calls) w))
              = balance (session_of (play None calls)) + user_gain v
              \<and> 0 \<le> user_gain v \<and> (\<not> user_correct v \<longrightarrow> user_gain v = 0)"
  proof (cases "status (session_of (play None calls))")
    case IDLE
    then show ?thesis
      by (simp add: game_logic_IDLE start_round_display start_round_balance)
  next
    case WAITING
    obtain v :: verdict where
      "display (submit_answer user_input (session_of (play None calls)) w) = Judged v"
      "balance (state_after (submit_answer user_input (session_of (play None calls)) w))
       = balance (session_of (play None calls)) + user_gain v"
      "0 \<le> user_gain v" "\<not> user_correct v \<longrightarrow> user_gain v = 0"
      using submit_answer_effect [OF w, of user_input "session_of (play None calls)"] by blast
    then show ?thesis using WAITING by (simp add: game_logic_WAITING)
  qed
  show ?thesis using nonneg mono step by blast
qed

theorem balance_never_decreases_witness:
  "(\<forall>j. 0 \<le> rand_unit sample_world j \<and> rand_unit sample_world j \<le> 1) \<and>
   play None [([], ''Korea'', sample_world)]
   = Some \<lparr>status = WAITING, balance = 0, secret_key = ''C'',
           chat_history = [''Auntie May: So lucky!'']\<rparr> \<and>
   0 \<le> balance (session_of (play None [([], ''Korea'', sample_world)])) \<and>
   balance (session_of (play None [([], ''Korea'', sample_world)]))
   \<le> balance (state_after (game_logic ''c'' ''Korea''
                  (play None [([], ''Korea'', sample_world)]) sample_world)) \<and>
   balance (state_after (game_logic ''c'' ''Korea''
                  (play None [([], ''Korea'', sample_world)]) sample_world)) = 158/25"
proof -
  have u: "\<forall>(i, r, x) \<in> set ([([], ''Korea'', sample_world)]
                                @ [(''c'', ''Korea'', sample_world)]).
             \<forall>j. 0 \<le> rand_unit x j \<and> rand_unit x j \<le> 1"
    using sample_world_unit by simp
  have p: "play None [([], ''Korea'', sample_world)]
           = Some \<lparr>status = WAITING, balance = 0, secret_key = ''C'',
                   chat_history = [''Auntie May: So lucky!'']\<rparr>"
    by code_simp
  have b: "balance (state_after (game_logic ''c'' ''Korea''
                  (play None [([], ''Korea'', sample_world)]) sample_world)) = 158/25"
    by code_simp
  show ?thesis
    using balance_never_decreases [OF u] sample_world_unit p b by blast
qed

text \<open>
  Claim C8, as stated: triggering "start round" while the status is \<^verbatim>\<open>WAITING\<close> starts a
  fresh round: a new question is requested and a new secret is stored. The start button
  calls \<^verbatim>\<open>game_logic\<close> with the empty input, and \<^verbatim>\<open>game_logic\<close> chooses its branch by the
  status alone: in a waiting session whose secret is \<^verbatim>\<open>B\<close> no question is requested, the
  secret stays \<^verbatim>\<open>B\<close> and the status becomes \<^verbatim>\<open>IDLE\<close>.
\<close>

theorem start_while_waiting_is_judged:
  "\<not> (Challenge ''Korea''
          \<in> set (requests (game_logic [] ''Korea'' (Some waiting_state) sample_world)) \<and>
        status (state_after (game_logic [] ''Korea'' (Some waiting_state) sample_world))
        = WAITING \<and>
        secret_key (state_after (game_logic [] ''Korea'' (Some waiting_state) sample_world))
        = ''C'')"
proof -
  have "status (state_after (game_logic [] ''Korea'' (Some waiting_state) sample_world)) = IDLE"
    by code_simp
  then show ?thesis by simp
qed

text \<open>
  Claim C8, amended. Triggering "start round" (a call of \<^verbatim>\<open>game_logic\<close> with the empty
  input) while the status is \<^verbatim>\<open>WAITING\<close> does not start a round: the call is the
  evaluation of the empty answer. No question is requested, the stored secret is
  unchanged, the status becomes \<^verbatim>\<open>IDLE\<close>, and the user is judged correct only if the
  stored secret is empty.
\<close>

theorem start_while_waiting:
  assumes "status (session_of state) = WAITING"
  shows "game_logic [] region state w = submit_answer [] (session_of state) w \<and>
         (\<forall>r. Challenge r \<notin> set (requests (game_logic [] region state w))) \<and>
         secret_key (state_after (game_logic [] region state w)) = secret_key (session_of state) \<and>
         status (state_after (game_logic [] region state w)) = IDLE \<and>
         judged_correct (game_logic [] region state w)
         = Some (secret_key (session_of state) = [])"
proof -
  have "answer_correct [] (secret_key (session_of state)) = (secret_key (session_of state) = [])"
    by (auto simp: answer_correct_def strip_def upper_def code_points_def)
  then show ?thesis
    using assms
    by (simp add: game_logic_WAITING submit_answer_frame submit_answer_requests
        submit_answer_judged)
qed

theorem start_while_waiting_witness:
  "status (session_of (Some waiting_state)) = WAITING \<and>
   game_logic [] ''Korea'' (Some waiting_state) sample_world
   = submit_answer [] (session_of (Some waiting_state)) sample_world \<and>
   secret_key (state_after (game_logic [] ''Korea'' (Some waiting_state) sample_world))
   = secret_key (session_of (Some waiting_state)) \<and>
   status (state_after (game_logic [] ''Korea'' (Some waiting_state) sample_world)) = IDLE \<and>
   judged_correct (game_logic [] ''Korea'' (Some waiting_state) sample_world)
   = Some (secret_key (session_of (Some waiting_state)) = [])"
proof -
  have s: "status (session_of (Some waiting_state)) = WAITING"
    by (simp add: session_of_def waiting_state_def)
  show ?thesis
    using start_while_waiting [OF s, of "''Korea''" sample_world] s by blast
qed

text \<open>
  Claim C9, as stated: submitting an answer while the status is \<^verbatim>\<open>IDLE\<close> is rejected or
  is a no-op, and leaves the stored secret and the balance unchanged. In a fresh session
  the submission of \<^verbatim>\<open>B\<close> stores the secret \<^verbatim>\<open>C\<close> of a new question.
\<close>

theorem submit_while_idle_replaces_key:
  "\<not> (secret_key (state_after (game_logic ''B'' ''Korea'' None sample_world))
        = secret_key (session_of None) \<and>
        balance (state_after (game_logic ''B'' ''Korea'' None sample_world))
        = balance (session_of None))"
proof -
  have "secret_key (state_after (game_logic ''B'' ''Korea'' None sample_world)) = ''C''"
    and "secret_key (session_of None) = []"
    by code_simp+
  then show ?thesis by simp
qed

text \<open>
  Claim C9, amended. Submitting an answer while the status is \<^verbatim>\<open>IDLE\<close> is handled as
  "start round": the input is ignored, a new question is requested, the stored secret is
  replaced by the key of the new question (the fallback \<^verbatim>\<open>A\<close> without a delimiter), the
  status becomes \<^verbatim>\<open>WAITING\<close>, and the balance is unchanged.
\<close>

theorem submit_while_idle:
  assumes "status (session_of state) = IDLE"
  shows "game_logic user_input region state w = start_round region (session_of state) w \<and>
         balance (state_after (game_logic user_input region state w))
         = balance (session_of state) \<and>
         Challenge region \<in> set (requests (game_logic user_input region state w)) \<and>
         secret_key (state_after (game_logic user_input region state w))
         = (case rsplit_last ''|||'' (challenge_reply w) of
              None \<Rightarrow> ''A'' | Some (a, b) \<Rightarrow> strip b) \<and>
         status (state_after (game_logic user_input region state w)) = WAITING"
  using assms
  by (simp add: game_logic_IDLE start_round_balance start_round_frame start_round_secret_key)

theorem submit_while_idle_witness:
  "status (session_of None) = IDLE \<and>
   game_logic ''B'' ''Korea'' None sample_world
   = start_round ''Korea'' (session_of None) sample_world \<and>
   balance (state_after (game_logic ''B'' ''Korea'' None sample_world))
   = balance (session_of None) \<and>
   Challenge ''Korea'' \<in> set (requests (game_logic ''B'' ''Korea'' None sample_world)) \<and>
   status (state_after (game_logic ''B'' ''Korea'' None sample_world)) = WAITING"
proof -
  have s: "status (session_of None) = IDLE"
    by (simp add: session_of_def initial_state_def)
  show ?thesis
    using submit_while_idle [OF s, of "''B''" "''Korea''" sample_world] s by blast
qed

text \<open>
  Claim C10. For every raw generated text that contains the delimiter \<^verbatim>\<open>|||\<close> once or
  more, the start-round step splits at the last occurrence: the stored secret is the
  trimmed text after the last \<^verbatim>\<open>|||\<close>, and the text before that occurrence, earlier
  \<^verbatim>\<open>|||\<close> included, is the displayed question block (trimmed, each newline shown as
  \<^verbatim>\<open><br>\<close>).
\<close>

theorem split_at_last_delimiter:
  assumes "status (session_of state) = IDLE"
    and "\<exists>a b. challenge_reply w = a @ ''|||'' @ b"
  shows "\<exists>a b. challenge_reply w = a @ ''|||'' @ b \<and>
           (\<forall>a' b'. challenge_reply w = a' @ ''|||'' @ b' \<longrightarrow> length a' \<le> length a) \<and>
           secret_key (state_after (game_logic user_input region state w)) = strip b \<and>
           display (game_logic user_input region state w)
           = Asked (replace_char (CHR 0x0A) ''<br>'' (strip a))"
proof -
  obtain a b where some: "rsplit_last ''|||'' (challenge_reply w) = Some (a, b)"
    using assms(2) rsplit_last_None [of "''|||''" "challenge_reply w"]
    by (cases "rsplit_last ''|||'' (challenge_reply w)") auto
  have "challenge_reply w = a @ ''|||'' @ b"
    and "\<forall>a' b'. challenge_reply w = a' @ ''|||'' @ b' \<longrightarrow> length a' \<le> length a"
    using rsplit_last_Some [OF _ some] by auto
  moreover have "secret_key (state_after (game_logic user_input region state w)) = strip b"
    using assms(1) some by (simp add: game_logic_IDLE start_round_secret_key)
  moreover have "display (game_logic user_input region state w)
                 = Asked (replace_char (CHR 0x0A) ''<br>'' (strip a))"
    using assms(1) some by (simp add: game_logic_IDLE start_round_display)
  ultimately show ?thesis by blast
qed

theorem split_at_last_delimiter_witness:
  "status (session_of None) = IDLE \<and>
   challenge_reply two_delimiter_world = ''Q? A) x ||| y B) z '' @ ''|||'' @ '' D '' \<and>
   secret_key (state_after (game_logic [] ''Korea'' None two_delimiter_world)) = ''D'' \<and>
   display (game_logic [] ''Korea'' None two_delimiter_world) = Asked ''Q? A) x ||| y B) z''"
proof -
  have s: "status (session_of None) = IDLE"
    by (simp add: session_of_def initial_state_def)
  have r: "challenge_reply two_delimiter_world = ''Q? A) x ||| y B) z '' @ ''|||'' @ '' D ''"
    by (simp add: two_delimiter_world_def)
  then have e: "\<exists>a b. challenge_reply two_delimiter_world = a @ ''|||'' @ b"
    by blast
  obtain a b where ab: "challenge_reply two_delimiter_world = a @ ''|||'' @ b"
    and mx: "\<forall>a' b'. challenge_reply two_delimiter_world = a' @ ''|||'' @ b'
               \<longrightarrow> length a' \<le> length a"
    and key: "secret_key (state_after (game_logic [] ''Korea'' None two_delimiter_world))
              = strip b"
    and shown: "display (game_logic [] ''Korea'' None two_delimiter_world)
                = Asked (replace_char (CHR 0x0A) ''<br>'' (strip a))"
    using split_at_last_delimiter [OF s e, of "[]" "''Korea''"] by blast
  have "rsplit_last ''|||'' (challenge_reply two_delimiter_world) = Some (a, b)"
    using rsplit_last_eq [OF _ ab mx] by simp
  moreover have "rsplit_last ''|||'' (challenge_reply two_delimiter_world)
                 = Some (''Q? A) x ||| y B) z '', '' D '')"
    by code_simp
  ultimately have a: "a = ''Q? A) x ||| y B) z ''" and b: "b = '' D ''"
    by simp_all
  have "strip '' D '' = ''D''" and
    "replace_char (CHR 0x0A) ''<br>'' (strip ''Q? A) x ||| y B) z '') = ''Q? A) x ||| y B) z''"
    by code_simp+
  then show ?thesis using s r key shown a b by simp
qed

end
